theory Spec2Isabelle
  imports Main "HOL-Library.Multiset"
begin

section \<open>JavaScript string and number primitives used by the sources\<close>

text \<open>
  A file name is a JavaScript string: a sequence of UTF-16 code units. A code unit is
  modelled as an integer (the code units are the values from 0 to \<open>0xFFFF\<close>; the
  functions below are defined on every integer), and \<open>utf16\<close> reads an Isabelle string,
  whose characters lie below \<open>0x100\<close>, as such a sequence. \<open>trim\<close>, \<open>lastIndexOf\<close>,
  \<open>substring\<close>, \<open>parseInt\<close> and the regular expression of \<open>parseFilename\<close> work code
  unit by code unit. \<open>toUpperCase\<close> follows the case tables of Unicode, which belong to
  the host: it is a parameter of the function that calls it.

  The other texts of the sources (SKUs used as object keys, titles, alternative texts,
  messages) are only compared, concatenated and looked up; they are Isabelle strings.
  The counts, positions and lengths that the other modules handle are integers; they are
  modelled as \<open>int\<close> and \<open>nat\<close>, which is exact below \<open>2^53\<close>, where a double holds
  every integer.
\<close>

type_synonym code_unit = int

type_synonym js_string = "code_unit list"

definition utf16 :: "string \<Rightarrow> js_string" where
  "utf16 s = map of_char s"

text \<open>
  The white space of ECMAScript, which \<open>trim\<close> and \<open>parseInt\<close> strip: the productions
  \<open>WhiteSpace\<close> (TAB, VT, FF, ZWNBSP and the space separators of Unicode: SP, NBSP,
  \<open>U+1680\<close>, \<open>U+2000\<close> to \<open>U+200A\<close>, \<open>U+202F\<close>, \<open>U+205F\<close>, \<open>U+3000\<close>) and
  \<open>LineTerminator\<close> (LF, CR, \<open>U+2028\<close>, \<open>U+2029\<close>).
\<close>

definition isWhiteSpace :: "code_unit \<Rightarrow> bool" where
  "isWhiteSpace c =
     (c \<in> set [0x0009, 0x000A, 0x000B, 0x000C, 0x000D, 0x0020, 0x00A0, 0x1680,
               0x2000, 0x2001, 0x2002, 0x2003, 0x2004, 0x2005, 0x2006, 0x2007,
               0x2008, 0x2009, 0x200A, 0x2028, 0x2029, 0x202F, 0x205F, 0x3000,
               0xFEFF])"

text \<open>\<open>String.prototype.trim\<close>: white space is removed from both ends.\<close>

definition trimStart :: "js_string \<Rightarrow> js_string" where
  "trimStart s = dropWhile isWhiteSpace s"

definition trimEnd :: "js_string \<Rightarrow> js_string" where
  "trimEnd s = rev (dropWhile isWhiteSpace (rev s))"

definition trim :: "js_string \<Rightarrow> js_string" where
  "trim s = trimEnd (trimStart s)"

text \<open>
  \<open>s.lastIndexOf(c)\<close> for a single code unit \<open>c\<close>: the greatest index at which \<open>c\<close>
  stands, or \<open>-1\<close>. The scan runs from the left and remembers the latest hit.
\<close>

fun lastIndexFrom :: "'a \<Rightarrow> 'a list \<Rightarrow> int \<Rightarrow> int \<Rightarrow> int" where
  "lastIndexFrom c [] i found = found"
| "lastIndexFrom c (x # xs) i found = lastIndexFrom c xs (i + 1) (if x = c then i else found)"

definition lastIndexOf :: "'a list \<Rightarrow> 'a \<Rightarrow> int" where
  "lastIndexOf s c = lastIndexFrom c s 0 (-1)"

text \<open>
  \<open>s.substring(a, b)\<close>: both arguments are clamped to \<open>0 .. length\<close> and swapped when
  they come in the wrong order; \<open>s.substring(a)\<close> runs to the end.
\<close>

definition substring :: "'a list \<Rightarrow> int \<Rightarrow> int \<Rightarrow> 'a list" where
  "substring s a b =
     (let n = int (length s);
          a' = max 0 (min a n);
          b' = max 0 (min b n);
          lo = min a' b';
          hi = max a' b'
      in take (nat (hi - lo)) (drop (nat lo) s))"

definition substringFrom :: "'a list \<Rightarrow> int \<Rightarrow> 'a list" where
  "substringFrom s a = substring s a (int (length s))"

text \<open>
  The numbers that \<open>parseInt\<close> returns, \<open>NaN\<close> apart: the doubles with an integer
  value, and the two infinities. (\<open>-0\<close> is \<open>Num 0\<close>: the sources only compare it with
  0, where the two agree.)
\<close>

datatype js_number = Num int | PlusInfinity | MinusInfinity

text \<open>\<open>x < 0\<close> and \<open>-x\<close>.\<close>

fun isNegative :: "js_number \<Rightarrow> bool" where
  "isNegative (Num v) = (v < 0)"
| "isNegative PlusInfinity = False"
| "isNegative MinusInfinity = True"

fun negateNumber :: "js_number \<Rightarrow> js_number" where
  "negateNumber (Num v) = Num (- v)"
| "negateNumber PlusInfinity = MinusInfinity"
| "negateNumber MinusInfinity = PlusInfinity"

text \<open>
  The Number value of a non-negative integer \<open>n\<close>. Below \<open>2^53\<close> every integer is a
  double. From there on \<open>n\<close> is rounded to 53 significant bits, to the nearest such
  value and to the even one of two nearest: with \<open>e\<close> surplus bits, \<open>q\<close> the leading
  53 bits and \<open>r\<close> the rest, \<open>q\<close> is kept when \<open>r\<close> is below half of \<open>2^e\<close> and
  raised by one when \<open>r\<close> is above it, or equal to it with \<open>q\<close> odd. A rounded value
  of \<open>2^1024\<close> or more is \<open>Infinity\<close>.
\<close>

function bitLength :: "int \<Rightarrow> nat" where
  "bitLength n = (if n \<le> 0 then 0 else Suc (bitLength (n div 2)))"
  by pat_completeness auto
termination
  by (relation "measure (\<lambda>n. nat n)") auto

declare bitLength.simps [simp del]

definition toNumber :: "int \<Rightarrow> js_number" where
  "toNumber n =
     (if n < 2 ^ 53 then Num n
      else
        let e = bitLength n - 53;
            q = n div 2 ^ e;
            r = n mod 2 ^ e;
            half = 2 ^ (e - 1);
            m = (if half < r \<or> (r = half \<and> odd q) then q + 1 else q)
        in if 2 ^ 1024 \<le> m * 2 ^ e then PlusInfinity else Num (m * 2 ^ e))"

text \<open>
  \<open>parseInt(s, 10)\<close>: leading white space is skipped, one sign is read, then the longest
  run of decimal digits \<open>0\<close> to \<open>9\<close>; whatever follows the digits is ignored. With no
  digit the result is \<open>NaN\<close>, here \<open>None\<close>; otherwise it is the Number value of the
  integer that the digits denote, negated after a minus sign. (ECMAScript lets an
  implementation replace the digits after the 20th significant one by zeros; the model
  keeps them all.)
\<close>

definition isDecimalDigit :: "code_unit \<Rightarrow> bool" where
  "isDecimalDigit c = (0x30 \<le> c \<and> c \<le> 0x39)"

definition decimalValue :: "js_string \<Rightarrow> int" where
  "decimalValue ds = foldl (\<lambda>acc d. 10 * acc + (d - 48)) 0 ds"

definition decimalDigits :: "js_string \<Rightarrow> js_string" where
  "decimalDigits s =
     (let t = trimStart s;
          body = (if t \<noteq> [] \<and> (hd t = 0x2B \<or> hd t = 0x2D) then tl t else t)
      in takeWhile isDecimalDigit body)"

definition parseInt10 :: "js_string \<Rightarrow> js_number option" where
  "parseInt10 s =
     (let t = trimStart s;
          z = decimalDigits s
      in if z = [] then None
         else if t \<noteq> [] \<and> hd t = 0x2D then Some (negateNumber (toNumber (decimalValue z)))
         else Some (toNumber (decimalValue z)))"

text \<open>
  The decimal digits of the texts that are Isabelle strings: the keys of objects and the
  texts of numbers.
\<close>

definition isDigit :: "char \<Rightarrow> bool" where
  "isDigit c = ((48::nat) \<le> of_char c \<and> of_char c \<le> (57::nat))"

definition digitValue :: "char \<Rightarrow> int" where
  "digitValue c = int (of_char c) - 48"

definition digitsValue :: "string \<Rightarrow> int" where
  "digitsValue ds = foldl (\<lambda>acc d. 10 * acc + digitValue d) 0 ds"

text \<open>
  \<open>String(n)\<close> for an integer: its decimal digits, with a minus sign when negative
  (the exponent notation of numbers from \<open>1e21\<close> on is outside the model), and
  \<open>s.padStart(width, "0")\<close>.
\<close>

function natDigits :: "nat \<Rightarrow> string" where
  "natDigits n =
     (if n < 10 then [char_of (48 + n)]
      else natDigits (n div 10) @ [char_of (48 + n mod 10)])"
  by pat_completeness auto
termination
  by (relation "measure (\<lambda>n. n)") auto

definition numberToString :: "int \<Rightarrow> string" where
  "numberToString i = (if i < 0 then CHR ''-'' # natDigits (nat (- i)) else natDigits (nat i))"

definition padStart :: "nat \<Rightarrow> char \<Rightarrow> string \<Rightarrow> string" where
  "padStart width c s = replicate (width - length s) c @ s"

subsection \<open>Objects used as dictionaries\<close>

text \<open>
  A plain object \<open>Record<string, V>\<close> is the list of its own properties in creation
  order. \<open>Object.keys\<close> and \<open>Object.entries\<close> enumerate the keys that are array
  indices first, in ascending numeric order, then the other keys in creation order. An
  array index is the canonical decimal text of an integer from \<open>0\<close> to \<open>2^32 - 2\<close>.
\<close>

type_synonym 'v js_object = "(string \<times> 'v) list"

definition isArrayIndex :: "string \<Rightarrow> bool" where
  "isArrayIndex k =
     (k \<noteq> [] \<and> list_all isDigit k \<and> (k = ''0'' \<or> hd k \<noteq> CHR ''0'')
      \<and> digitsValue k < 4294967295)"

definition objectEntries :: "'v js_object \<Rightarrow> (string \<times> 'v) list" where
  "objectEntries obj =
     sort_key (\<lambda>(k, v). digitsValue k) (filter (\<lambda>(k, v). isArrayIndex k) obj)
     @ filter (\<lambda>(k, v). \<not> isArrayIndex k) obj"

definition objectKeys :: "'v js_object \<Rightarrow> string list" where
  "objectKeys obj = map fst (objectEntries obj)"

text \<open>
  Reading \<open>obj[k]\<close> on a fresh object finds, for the names below, a member inherited
  from \<open>Object.prototype\<close>: a function, or the prototype itself for \<open>__proto__\<close>. The
  value is truthy and has no \<open>push\<close>, so the idiom
  \<open>if (!obj[k]) obj[k] = []; obj[k].push(x)\<close> throws a \<open>TypeError\<close> for such a key.
\<close>

definition inheritedProperty :: "string \<Rightarrow> bool" where
  "inheritedProperty k =
     (k \<in> set [''constructor'', ''__defineGetter__'', ''__defineSetter__'', ''hasOwnProperty'',
               ''__lookupGetter__'', ''__lookupSetter__'', ''isPrototypeOf'',
               ''propertyIsEnumerable'', ''toString'', ''valueOf'', ''__proto__'',
               ''toLocaleString''])"

text \<open>A thrown value: an \<open>Error\<close> with its message, or anything else.\<close>

datatype thrown = ErrorObj string | OtherThrown

fun messageOr :: "string \<Rightarrow> thrown \<Rightarrow> string" where
  "messageOr fallback (ErrorObj message) = message"
| "messageOr fallback OtherThrown = fallback"

definition pushTypeError :: "string \<Rightarrow> thrown" where
  "pushTypeError object = ErrorObj (object @ ''[file.sku].push is not a function'')"

text \<open>
  \<open>if (!obj[k]) obj[k] = []; obj[k].push(x)\<close> for a key with no inherited member: a new
  property is created after the existing ones, an existing array grows at its end.
\<close>

definition pushTo :: "string \<Rightarrow> 'a \<Rightarrow> 'a list js_object \<Rightarrow> 'a list js_object" where
  "pushTo k x obj =
     (case map_of obj k of
        None \<Rightarrow> obj @ [(k, [x])]
      | Some _ \<Rightarrow> map (\<lambda>(k', xs). if k' = k then (k', xs @ [x]) else (k', xs)) obj)"

text \<open>
  \<open>Array.prototype.sort(compare)\<close> is stable. It is modelled by insertion, where
  \<open>le a b\<close> stands for \<open>compare(a, b) <= 0\<close>.
\<close>

fun insertBy :: "('a \<Rightarrow> 'a \<Rightarrow> bool) \<Rightarrow> 'a \<Rightarrow> 'a list \<Rightarrow> 'a list" where
  "insertBy le x [] = [x]"
| "insertBy le x (y # ys) = (if le x y then x # y # ys else y # insertBy le x ys)"

definition sortBy :: "('a \<Rightarrow> 'a \<Rightarrow> bool) \<Rightarrow> 'a list \<Rightarrow> 'a list" where
  "sortBy le xs = foldr (insertBy le) xs []"

section \<open>fileParser.ts\<close>

text \<open>
  \<open>filename.replace(/\.[^/.]+$/, "")\<close>: the pattern matches a dot (\<open>0x2E\<close>) followed,
  up to the end of the string, by one or more code units that are neither a slash
  (\<open>0x2F\<close>) nor a dot. Such a match can only start at the last dot, so the extension is
  removed when the text after the last dot is not empty and holds no slash.
\<close>

definition removeExtension :: "js_string \<Rightarrow> js_string" where
  "removeExtension filename =
     (let i = lastIndexOf filename 0x2E;
          ext = substringFrom filename (i + 1)
      in if i \<noteq> -1 \<and> ext \<noteq> [] \<and> 0x2F \<notin> set ext
         then substring filename 0 i else filename)"

text \<open>
  The four errors that \<open>parseFilename\<close> throws, in the order of its checks. The message
  of the third carries the text that failed to parse.
\<close>

datatype parse_error =
    NoSeparator
  | EmptySku
  | InvalidSortNumber js_string
  | NegativeSortNumber

fun errorMessage :: "parse_error \<Rightarrow> js_string" where
  "errorMessage NoSeparator = utf16 ''No hyphen found - cannot determine sort order''"
| "errorMessage EmptySku = utf16 ''SKU cannot be empty''"
| "errorMessage (InvalidSortNumber sortStr) =
     utf16 ''Invalid sort number: \"'' @ sortStr @ utf16 ''\"''"
| "errorMessage NegativeSortNumber = utf16 ''Sort number cannot be negative''"

text \<open>
  The fields of \<open>ParseResult\<close> are \<open>sku\<close> and \<open>sortOrder\<close>; they carry a prefix here
  to keep them apart from the fields of \<open>ParsedFile\<close>.
\<close>

record ParseResult =
  pr_sku :: js_string
  pr_sortOrder :: js_number

text \<open>
  \<open>parseFilename\<close>. The separator \<open>-\<close> is the code unit \<open>0x2D\<close>; \<open>!sku\<close> holds of
  the empty string only; \<open>isNaN(sortOrder)\<close> is the case \<open>None\<close>. The first argument
  is the \<open>toUpperCase\<close> of the host.
\<close>

definition parseFilename ::
  "(js_string \<Rightarrow> js_string) \<Rightarrow> js_string \<Rightarrow> parse_error + ParseResult" where
  "parseFilename toUpperCase filename =
     (let nameWithoutExt = removeExtension filename;
          lastHyphenIndex = lastIndexOf nameWithoutExt 0x2D
      in if lastHyphenIndex = -1 then Inl NoSeparator
         else if lastHyphenIndex = 0 then Inl EmptySku
         else
           let sku = trim (substring nameWithoutExt 0 lastHyphenIndex);
               sortStr = trim (substringFrom nameWithoutExt (lastHyphenIndex + 1))
           in if sku = [] then Inl EmptySku
              else (case parseInt10 sortStr of
                      None \<Rightarrow> Inl (InvalidSortNumber sortStr)
                    | Some sortOrder \<Rightarrow>
                        if isNegative sortOrder then Inl NegativeSortNumber
                        else Inr \<lparr>pr_sku = toUpperCase sku, pr_sortOrder = sortOrder\<rparr>))"

section \<open>The data model (types.ts)\<close>

datatype status = Skipped | Success | Error | DryRun

datatype strategy = Replace | Prepend | Append

text \<open>
  \<open>ParsedFile\<close> holds the fields that the browser and the server share; the browser's
  \<open>file: File\<close> is never read by the functions modelled here and is left to the record's
  extension. \<open>ParsedFileData\<close> is the server's record: the metadata that arrives as JSON
  (\<open>FileMeta\<close>) and the bytes of the blob.
\<close>

record ParsedFile =
  originalFilename :: string
  sku :: string
  sortOrder :: int
  isValid :: bool
  error :: "string option"

record FileMeta = ParsedFile +
  fileType :: string
  fileSize :: int

record ParsedFileData = FileMeta +
  fileData :: "nat list"

record ProductData =
  id' :: string
  title :: string
  mediaIds :: "string list"

record Summary =
  total :: nat
  successful :: nat
  failed :: nat
  skipped :: nat
  dryRun :: "nat option"

text \<open>
  \<open>altTextByPosition\<close> is read with \<open>?.\<close>, so it may be missing altogether.
\<close>

record UploadSettings =
  dryRun :: bool
  uploadStrategy :: strategy
  seoOptimization :: bool
  altTextByPosition :: "(int \<rightharpoonup> string) option"

record ProcessingResult =
  filename :: string
  detectedSku :: string
  productFound :: bool
  productTitle :: "string option"
  productId :: "string option"
  status :: status
  errorDetails :: "string option"

record StagedUploadTarget =
  url :: string
  resourceUrl :: string
  parameters :: "(string \<times> string) list"

record ActionResponse =
  success :: bool
  results :: "ProcessingResult list"
  summary :: Summary

record MissingImageWarning =
  sku :: string
  expectedCount :: nat
  actualCount :: nat
  missingNumbers :: "int list"
  hasGaps :: bool

record PatternAnalysis =
  mostCommonCount :: nat
  totalSkus :: nat
  skusWithExpectedCount :: nat
  warnings :: "MissingImageWarning list"
  isConsistentPattern :: bool

section \<open>fileParser.ts: grouping\<close>

text \<open>
  \<open>groupFilesBySku\<close>: the valid files are pushed onto the property named by their SKU,
  then every group is sorted by \<open>sortOrder\<close>.
\<close>

fun groupLoop ::
  "ParsedFileData list \<Rightarrow> ParsedFileData list js_object
     \<Rightarrow> thrown + ParsedFileData list js_object" where
  "groupLoop [] grouped = Inr grouped"
| "groupLoop (file # files) grouped =
     (if \<not> isValid file then groupLoop files grouped
      else if inheritedProperty (ParsedFile.sku file) then Inl (pushTypeError ''grouped'')
      else groupLoop files (pushTo (ParsedFile.sku file) file grouped))"

definition groupFilesBySku ::
  "ParsedFileData list \<Rightarrow> thrown + ParsedFileData list js_object" where
  "groupFilesBySku files =
     (case groupLoop files [] of
        Inl e \<Rightarrow> Inl e
      | Inr grouped \<Rightarrow> Inr (map (\<lambda>(k, fs). (k, sort_key sortOrder fs)) grouped))"

text \<open>\<open>getUniqueSKUs\<close>: a \<open>Set\<close> keeps the first occurrence of each SKU, in order.\<close>

fun uniqueLoop :: "ParsedFileData list \<Rightarrow> string list \<Rightarrow> string list" where
  "uniqueLoop [] skus = skus"
| "uniqueLoop (file # files) skus =
     (if isValid file \<and> ParsedFile.sku file \<noteq> [] \<and> ParsedFile.sku file \<notin> set skus
      then uniqueLoop files (skus @ [ParsedFile.sku file])
      else uniqueLoop files skus)"

definition getUniqueSKUs :: "ParsedFileData list \<Rightarrow> string list" where
  "getUniqueSKUs files = uniqueLoop files []"

section \<open>The pattern analyzer\<close>

text \<open>The first loop of \<open>analyzeImagePattern\<close>: the sort orders of each SKU.\<close>

fun groupSortOrders ::
  "'a ParsedFile_scheme list \<Rightarrow> int list js_object \<Rightarrow> thrown + int list js_object" where
  "groupSortOrders [] skuGroups = Inr skuGroups"
| "groupSortOrders (file # files) skuGroups =
     (if inheritedProperty (ParsedFile.sku file) then Inl (pushTypeError ''skuGroups'')
      else groupSortOrders files (pushTo (ParsedFile.sku file) (sortOrder file) skuGroups))"

text \<open>
  \<open>countFrequency\<close> is keyed by the image counts. A count is the length of an array
  and so, below the greatest array length \<open>2^32 - 1\<close>, its key is an array index:
  \<open>Object.entries\<close> lists the counts in ascending order, and the model keeps the entries
  in that order. A missing entry reads as \<open>0\<close>. The iterations over \<open>skus\<close> read
  \<open>skuGroups[sku]\<close>; the model walks the entries, which pair each key with that array.
\<close>

fun bumpFrequency :: "nat \<Rightarrow> (nat \<times> nat) list \<Rightarrow> (nat \<times> nat) list" where
  "bumpFrequency cnt [] = [(cnt, 1)]"
| "bumpFrequency cnt ((k, frequency) # rest) =
     (if cnt = k then (k, frequency + 1) # rest
      else if cnt < k then (cnt, 1) # (k, frequency) # rest
      else (k, frequency) # bumpFrequency cnt rest)"

fun countLoop :: "(string \<times> int list) list \<Rightarrow> (nat \<times> nat) list \<Rightarrow> (nat \<times> nat) list" where
  "countLoop [] countFrequency = countFrequency"
| "countLoop ((key, orders) # rest) countFrequency =
     countLoop rest (bumpFrequency (length orders) countFrequency)"

text \<open>The search for the most common count; it returns the count and its frequency.\<close>

fun modeLoop :: "(nat \<times> nat) list \<Rightarrow> nat \<Rightarrow> nat \<Rightarrow> nat \<times> nat" where
  "modeLoop [] mostCommon maxFrequency = (mostCommon, maxFrequency)"
| "modeLoop ((cnt, frequency) # rest) mostCommon maxFrequency =
     (if frequency > maxFrequency then modeLoop rest cnt frequency
      else modeLoop rest mostCommon maxFrequency)"

text \<open>
  \<open>for (let i = minSort; i <= maxSort; i++) if (!sortOrders.includes(i)) ...\<close>
\<close>

function gapLoop :: "int \<Rightarrow> int \<Rightarrow> int list \<Rightarrow> int list \<Rightarrow> int list" where
  "gapLoop i maxSort sortOrders missing =
     (if i \<le> maxSort
      then gapLoop (i + 1) maxSort sortOrders
             (if i \<in> set sortOrders then missing else missing @ [i])
      else missing)"
  by pat_completeness auto
termination
  by (relation "measure (\<lambda>(i, maxSort, sortOrders, missing). nat (maxSort + 1 - i))") auto

text \<open>\<open>for (let i = lastNumber + 1; i <= bound; i++) missingNumbers.push(i)\<close>\<close>

function tailLoop :: "int \<Rightarrow> int \<Rightarrow> int list \<Rightarrow> int list" where
  "tailLoop i bound missing =
     (if i \<le> bound then tailLoop (i + 1) bound (missing @ [i]) else missing)"
  by pat_completeness auto
termination
  by (relation "measure (\<lambda>(i, bound, missing). nat (bound + 1 - i))") auto

text \<open>
  The body of the loop over the SKUs: the warning that the SKU gets, if any. A group
  holds at least the file that created it; for an empty array \<open>Math.min\<close> has no
  integer value and the model gives no warning.
\<close>

definition skuWarning ::
  "bool \<Rightarrow> nat \<Rightarrow> string \<times> int list \<Rightarrow> MissingImageWarning option" where
  "skuWarning consistent mostCommon entry =
     (let sortOrders = sort (snd entry);
          cnt = length sortOrders
      in case sortOrders of
           [] \<Rightarrow> None
         | x # xs \<Rightarrow>
             let minSort = fold min xs x;
                 maxSort = fold max xs x;
                 gaps = gapLoop minSort maxSort sortOrders [];
                 hasFewerThanExpected = (consistent \<and> cnt < mostCommon);
                 gapsFound = (length gaps > 0);
                 missing =
                   (if hasFewerThanExpected \<and> \<not> gapsFound
                    then tailLoop (maxSort + 1) (maxSort + (int mostCommon - int cnt)) gaps
                    else gaps)
             in if gapsFound \<or> hasFewerThanExpected
                then Some \<lparr>MissingImageWarning.sku = fst entry, expectedCount = mostCommon,
                           actualCount = cnt, missingNumbers = missing,
                           hasGaps = gapsFound\<rparr>
                else None)"

fun warningLoop ::
  "bool \<Rightarrow> nat \<Rightarrow> (string \<times> int list) list \<Rightarrow> MissingImageWarning list
     \<Rightarrow> MissingImageWarning list" where
  "warningLoop consistent mostCommon [] found = found"
| "warningLoop consistent mostCommon (entry # rest) found =
     warningLoop consistent mostCommon rest
       (case skuWarning consistent mostCommon entry of
          None \<Rightarrow> found
        | Some warning \<Rightarrow> found @ [warning])"

text \<open>
  \<open>analyzeImagePattern\<close>. The collation \<open>a.localeCompare(b)\<close> belongs to the host and
  is a parameter. \<open>null\<close> is \<open>None\<close>; \<open>maxFrequency >= skus.length * 0.5\<close> is compared
  after doubling both sides.
\<close>

definition analyzeImagePattern ::
  "(string \<Rightarrow> string \<Rightarrow> int) \<Rightarrow> 'a ParsedFile_scheme list \<Rightarrow> thrown + PatternAnalysis option" where
  "analyzeImagePattern localeCompare files =
     (let validFiles = filter isValid files
      in if length validFiles = 0 then Inr None
         else
           case groupSortOrders validFiles [] of
             Inl e \<Rightarrow> Inl e
           | Inr skuGroups \<Rightarrow>
               let entries = objectEntries skuGroups;
                   skus = map fst entries
               in if length skus = 0 then Inr None
                  else
                    let countFrequency = countLoop entries [];
                        (mostCommon, maxFrequency) = modeLoop countFrequency 0 0
                    in if length skus < 2 then Inr None
                       else
                         let consistent = (2 * maxFrequency \<ge> length skus);
                             found = warningLoop consistent mostCommon entries []
                         in Inr (Some
                              \<lparr>mostCommonCount = mostCommon,
                               totalSkus = length skus,
                               skusWithExpectedCount = maxFrequency,
                               warnings =
                                 sortBy (\<lambda>a b. localeCompare (MissingImageWarning.sku a)
                                                  (MissingImageWarning.sku b) \<le> 0) found,
                               isConsistentPattern = consistent\<rparr>))"

section \<open>imageQueue.server.ts\<close>

text \<open>
  The functions of \<open>shopifyMedia.server.ts\<close> are the boundary to the remote API: each
  call either returns or throws, as the remote side answers. The model records every call
  in a log and lets the answer depend on the calls made so far and on the arguments. The
  messages written with \<open>console.error\<close> are kept as well.
\<close>

datatype call =
    CreateStagedUpload ParsedFileData
  | UploadToStagedTarget StagedUploadTarget ParsedFileData
  | CreateProductMedia string string "string option"
  | DeleteProductMedia string "string list"
  | ReorderProductMedia string nat

record AdminContext =
  queryProductBySKU :: "string \<Rightarrow> thrown + ProductData option"
  createStagedUpload :: "call list \<Rightarrow> ParsedFileData \<Rightarrow> thrown + StagedUploadTarget"
  uploadToStagedTarget :: "call list \<Rightarrow> StagedUploadTarget \<Rightarrow> ParsedFileData \<Rightarrow> thrown + unit"
  createProductMedia :: "call list \<Rightarrow> string \<Rightarrow> string \<Rightarrow> string option \<Rightarrow> thrown + string"
  deleteProductMedia :: "call list \<Rightarrow> string \<Rightarrow> string list \<Rightarrow> thrown + unit"
  reorderProductMedia :: "call list \<Rightarrow> string \<Rightarrow> nat \<Rightarrow> thrown + unit"

record world =
  calls :: "call list"
  consoleErrors :: "string list"

definition issue :: "call \<Rightarrow> world \<Rightarrow> world" where
  "issue c w = w\<lparr>calls := calls w @ [c]\<rparr>"

definition consoleError :: "string \<Rightarrow> world \<Rightarrow> world" where
  "consoleError line w = w\<lparr>consoleErrors := consoleErrors w @ [line]\<rparr>"

text \<open>
  \<open>processOneUpload\<close>: the alt text is computed first, then the three steps run in
  order; the first step that throws ends the task with an \<open>error\<close> result. In
  \<open>customText || `View ...`\<close> a missing text and the empty text both give way to the
  default.
\<close>

definition processOneUpload ::
  "AdminContext \<Rightarrow> ParsedFileData \<Rightarrow> ProductData \<Rightarrow> UploadSettings \<Rightarrow> world
     \<Rightarrow> ProcessingResult \<times> world" where
  "processOneUpload admin file product settings w =
     (let altText =
            (if seoOptimization settings then
               let customText =
                     (case altTextByPosition settings of
                        None \<Rightarrow> None
                      | Some byPosition \<Rightarrow> byPosition (sortOrder file));
                   suffix =
                     (case customText of
                        None \<Rightarrow> ''View '' @ padStart 2 CHR ''0'' (numberToString (sortOrder file))
                      | Some text \<Rightarrow>
                          if text = []
                          then ''View '' @ padStart 2 CHR ''0'' (numberToString (sortOrder file))
                          else text)
               in Some (title product @ '' - '' @ suffix)
             else None);
          ok = \<lparr>filename = originalFilename file, detectedSku = ParsedFile.sku file,
                 productFound = True, productTitle = Some (title product),
                 productId = Some (id' product), status = Success, errorDetails = None\<rparr>;
          caught = (\<lambda>e. ok\<lparr>status := Error,
                              errorDetails := Some (messageOr ''Unknown upload error'' e)\<rparr>);
          w1 = issue (CreateStagedUpload file) w
      in case createStagedUpload admin (calls w) file of
           Inl e \<Rightarrow> (caught e, w1)
         | Inr stagedTarget \<Rightarrow>
             let w2 = issue (UploadToStagedTarget stagedTarget file) w1
             in case uploadToStagedTarget admin (calls w1) stagedTarget file of
                  Inl e \<Rightarrow> (caught e, w2)
                | Inr _ \<Rightarrow>
                    let w3 = issue (CreateProductMedia (id' product)
                                      (resourceUrl stagedTarget) altText) w2
                    in case createProductMedia admin (calls w2) (id' product)
                              (resourceUrl stagedTarget) altText of
                         Inl e \<Rightarrow> (caught e, w3)
                       | Inr _ \<Rightarrow> (ok, w3))"

text \<open>
  The upload tasks of one product. They are handed to the limiter in the order of
  \<open>sortedFiles\<close> and \<open>Promise.all\<close> returns their results in that order; the model runs
  them one after the other in that order.
\<close>

fun uploadAll ::
  "AdminContext \<Rightarrow> ParsedFileData list \<Rightarrow> ProductData \<Rightarrow> UploadSettings \<Rightarrow> world
     \<Rightarrow> ProcessingResult list \<times> world" where
  "uploadAll admin [] product settings w = ([], w)"
| "uploadAll admin (file # files) product settings w =
     (let (r, w1) = processOneUpload admin file product settings w;
          (rs, w2) = uploadAll admin files product settings w1
      in (r # rs, w2))"

definition processProductFiles ::
  "AdminContext \<Rightarrow> ParsedFileData list \<Rightarrow> ProductData \<Rightarrow> UploadSettings \<Rightarrow> world
     \<Rightarrow> ProcessingResult list \<times> world" where
  "processProductFiles admin files product settings w =
     (let sortedFiles = sort_key sortOrder files;
          w1 =
            (if uploadStrategy settings = Replace \<and> length (mediaIds product) > 0 then
               (case deleteProductMedia admin (calls w) (id' product) (mediaIds product) of
                  Inr _ \<Rightarrow> issue (DeleteProductMedia (id' product) (mediaIds product)) w
                | Inl e \<Rightarrow>
                    consoleError (''Failed to delete existing media for '' @ id' product @ '':'')
                      (issue (DeleteProductMedia (id' product) (mediaIds product)) w))
             else w);
          (uploadResults, w2) = uploadAll admin sortedFiles product settings w1;
          w3 =
            (if uploadStrategy settings = Prepend \<and> length (mediaIds product) > 0 then
               let successfulUploads = filter (\<lambda>r. status r = Success) uploadResults
               in if length successfulUploads > 0 then
                    (case reorderProductMedia admin (calls w2) (id' product)
                            (length successfulUploads) of
                       Inr _ \<Rightarrow>
                         issue (ReorderProductMedia (id' product) (length successfulUploads)) w2
                     | Inl e \<Rightarrow>
                         consoleError (''Failed to reorder media for '' @ id' product @ '':'')
                           (issue (ReorderProductMedia (id' product)
                                     (length successfulUploads)) w2))
                  else w2
             else w2)
      in (uploadResults, w3))"

text \<open>\<open>processUploadQueue\<close>: the loop over \<open>Object.entries(groupedFiles)\<close>.\<close>

fun queueLoop ::
  "AdminContext \<Rightarrow> (string \<times> ParsedFileData list) list \<Rightarrow> (string \<rightharpoonup> ProductData)
     \<Rightarrow> UploadSettings \<Rightarrow> ProcessingResult list \<Rightarrow> world
     \<Rightarrow> ProcessingResult list \<times> world" where
  "queueLoop admin [] productMap settings allResults w = (allResults, w)"
| "queueLoop admin ((key, files) # rest) productMap settings allResults w =
     (case productMap key of
        None \<Rightarrow>
          queueLoop admin rest productMap settings
            (allResults @
               map (\<lambda>file. \<lparr>filename = originalFilename file,
                             detectedSku = ParsedFile.sku file, productFound = False,
                             productTitle = None, productId = None, status = Skipped,
                             errorDetails = Some (''No product found with SKU: '' @ key)\<rparr>)
                 files)
            w
      | Some product \<Rightarrow>
          if UploadSettings.dryRun settings then
            queueLoop admin rest productMap settings
              (allResults @
                 map (\<lambda>file. \<lparr>filename = originalFilename file,
                               detectedSku = ParsedFile.sku file, productFound = True,
                               productTitle = Some (title product),
                               productId = Some (id' product), status = DryRun,
                               errorDetails = None\<rparr>)
                   files)
              w
          else
            let (productResults, w1) = processProductFiles admin files product settings w
            in queueLoop admin rest productMap settings (allResults @ productResults) w1)"

definition processUploadQueue ::
  "AdminContext \<Rightarrow> ParsedFileData list js_object \<Rightarrow> (string \<rightharpoonup> ProductData)
     \<Rightarrow> UploadSettings \<Rightarrow> world \<Rightarrow> ProcessingResult list \<times> world" where
  "processUploadQueue admin groupedFiles productMap settings w =
     queueLoop admin (objectEntries groupedFiles) productMap settings [] w"

definition generateSummary :: "ProcessingResult list \<Rightarrow> Summary" where
  "generateSummary rs =
     \<lparr>total = length rs,
      successful = length (filter (\<lambda>r. status r = Success) rs),
      failed = length (filter (\<lambda>r. status r = Error) rs),
      skipped = length (filter (\<lambda>r. status r = Skipped) rs),
      Summary.dryRun = Some (length (filter (\<lambda>r. status r = DryRun) rs))\<rparr>"

section \<open>The route action (app.\_index.tsx)\<close>

text \<open>
  \<open>queryProductsBySKUs\<close>: one lookup per SKU; a SKU whose lookup finds nothing or throws
  stays out of the map.
\<close>

fun queryProductsLoop ::
  "AdminContext \<Rightarrow> string list \<Rightarrow> (string \<rightharpoonup> ProductData) \<Rightarrow> world
     \<Rightarrow> (string \<rightharpoonup> ProductData) \<times> world" where
  "queryProductsLoop admin [] productMap w = (productMap, w)"
| "queryProductsLoop admin (key # keys) productMap w =
     (case queryProductBySKU admin key of
        Inr (Some product) \<Rightarrow> queryProductsLoop admin keys (productMap(key \<mapsto> product)) w
      | Inr None \<Rightarrow> queryProductsLoop admin keys productMap w
      | Inl e \<Rightarrow>
          queryProductsLoop admin keys productMap
            (consoleError (''Failed to query product for SKU '' @ key @ '':'') w))"

definition queryProductsBySKUs ::
  "AdminContext \<Rightarrow> string list \<Rightarrow> world \<Rightarrow> (string \<rightharpoonup> ProductData) \<times> world" where
  "queryProductsBySKUs admin skus w = queryProductsLoop admin skus Map.empty w"

text \<open>
  The request as the action reads it: the two JSON form fields, already decoded (\<open>None\<close>
  when the field is missing, empty or not a string), and the blobs of the \<open>files\<close> field.
  The metadata entry at index \<open>i\<close> gets the blob at index \<open>i\<close>, or an empty buffer.
\<close>

record ActionRequest =
  settingsField :: "UploadSettings option"
  filesDataField :: "FileMeta list option"
  fileBlobs :: "nat list list"

fun attachBlobs :: "FileMeta list \<Rightarrow> nat list list \<Rightarrow> ParsedFileData list" where
  "attachBlobs [] blobs = []"
| "attachBlobs (meta # metas) blobs =
     \<lparr>originalFilename = originalFilename meta, sku = ParsedFile.sku meta,
      sortOrder = sortOrder meta, isValid = isValid meta, error = error meta,
      fileType = fileType meta, fileSize = fileSize meta,
      fileData = (case blobs of [] \<Rightarrow> [] | blob # _ \<Rightarrow> blob)\<rparr>
     # attachBlobs metas (tl blobs)"

text \<open>The body of the \<open>try\<close> block; \<open>Inl\<close> is what it throws.\<close>

definition actionTry ::
  "AdminContext \<Rightarrow> ActionRequest \<Rightarrow> world \<Rightarrow> thrown + ActionResponse \<times> world" where
  "actionTry admin request w =
     (case settingsField request of
        None \<Rightarrow> Inl (ErrorObj ''Settings not provided'')
      | Some settings \<Rightarrow>
          (case filesDataField request of
             None \<Rightarrow> Inl (ErrorObj ''Files data not provided'')
           | Some filesMetadata \<Rightarrow>
               let parsedFiles = attachBlobs filesMetadata (fileBlobs request);
                   validFiles = filter isValid parsedFiles;
                   invalidResults =
                     map (\<lambda>f. \<lparr>filename = originalFilename f,
                                detectedSku = ParsedFile.sku f, productFound = False,
                                productTitle = None, productId = None, status = Error,
                                errorDetails =
                                  Some (case error f of
                                          None \<Rightarrow> ''Invalid file''
                                        | Some text \<Rightarrow>
                                            if text = [] then ''Invalid file'' else text)\<rparr>)
                       (filter (\<lambda>f. \<not> isValid f) parsedFiles)
               in if length validFiles = 0 then
                    Inr (\<lparr>success = False, results = invalidResults,
                          summary = \<lparr>total = length invalidResults, successful = 0,
                                      failed = length invalidResults, skipped = 0,
                                      Summary.dryRun = None\<rparr>\<rparr>, w)
                  else
                    (case groupFilesBySku validFiles of
                       Inl e \<Rightarrow> Inl e
                     | Inr groupedFiles \<Rightarrow>
                         let uniqueSKUs = getUniqueSKUs validFiles;
                             (productMap, w1) = queryProductsBySKUs admin uniqueSKUs w;
                             (uploadResults, w2) =
                               processUploadQueue admin groupedFiles productMap settings w1;
                             allResults = invalidResults @ uploadResults;
                             counts = generateSummary allResults
                         in Inr (\<lparr>success = (failed counts = 0), results = allResults,
                                   summary = counts\<rparr>, w2))))"

text \<open>
  \<open>action\<close>: whatever the body throws is caught and reported as a single error result.
  Every throw of the body happens before its first remote call, so the world at the
  \<open>catch\<close> is the one the action started in.
\<close>

definition action :: "AdminContext \<Rightarrow> ActionRequest \<Rightarrow> world \<Rightarrow> ActionResponse \<times> world" where
  "action admin request w =
     (case actionTry admin request w of
        Inr out \<Rightarrow> out
      | Inl e \<Rightarrow>
          (\<lparr>success = False,
            results = [\<lparr>filename = ''Error'', detectedSku = [], productFound = False,
                        productTitle = None, productId = None, status = Error,
                        errorDetails = Some (messageOr ''Unknown error'' e)\<rparr>],
            summary = \<lparr>total = 1, successful = 0, failed = 1, skipped = 0,
                        Summary.dryRun = None\<rparr>\<rparr>,
           consoleError ''Action error:'' w))"

section \<open>Vocabulary of the specification\<close>

text \<open>
  \<open>isLastIndex c s k\<close>: the last occurrence of \<open>c\<close> in \<open>s\<close> is at position \<open>k\<close>.
\<close>

definition isLastIndex :: "'a \<Rightarrow> 'a list \<Rightarrow> nat \<Rightarrow> bool" where
  "isLastIndex c s k = (k < length s \<and> s ! k = c \<and> c \<notin> set (drop (Suc k) s))"

text \<open>
  An extension is a dot followed by at least one code unit, none of them a dot or a
  slash. \<open>withoutExtension fname n\<close>: \<open>n\<close> is \<open>fname\<close> without its extension when
  \<open>fname\<close> ends in one, and \<open>fname\<close> itself when it does not.
\<close>

definition isExtension :: "js_string \<Rightarrow> bool" where
  "isExtension ext =
     (case ext of
        [] \<Rightarrow> False
      | c # rest \<Rightarrow> c = 0x2E \<and> rest \<noteq> [] \<and> 0x2E \<notin> set rest \<and> 0x2F \<notin> set rest)"

definition withoutExtension :: "js_string \<Rightarrow> js_string \<Rightarrow> bool" where
  "withoutExtension fname n =
     (if \<exists>i \<in> set [0..<length fname]. isExtension (drop i fname)
      then n @ drop (length n) fname = fname \<and> isExtension (drop (length n) fname)
      else n = fname)"

text \<open>
  \<open>isTrimOf t s\<close>: \<open>t\<close> is what remains of \<open>s\<close> when the white space at its two ends
  is removed: \<open>s\<close> is white space, then \<open>t\<close>, then white space, and \<open>t\<close> neither
  starts nor ends with white space.
\<close>

definition isTrimOf :: "js_string \<Rightarrow> js_string \<Rightarrow> bool" where
  "isTrimOf t s =
     (\<exists>i \<in> set [0..<Suc (length s)].
        list_all isWhiteSpace (take i s)
        \<and> t = take (length t) (drop i s)
        \<and> list_all isWhiteSpace (drop (i + length t) s)
        \<and> (t = [] \<or> (\<not> isWhiteSpace (hd t) \<and> \<not> isWhiteSpace (last t))))"

text \<open>
  \<open>roundsTo n m e v\<close>: \<open>v\<close> is the double nearest to the integer \<open>n\<close>. The
  integer \<open>n\<close> has \<open>53 + e\<close> bits, so the doubles around it are the multiples of
  \<open>2^e\<close>; \<open>m * 2^e\<close> is the multiple nearest to \<open>n\<close>, the one with \<open>m\<close> even
  when \<open>n\<close> lies half-way between two; and \<open>v\<close> is that value, or \<open>Infinity\<close>
  when it is \<open>2^1024\<close> or more.
\<close>

definition roundsTo :: "int \<Rightarrow> int \<Rightarrow> nat \<Rightarrow> js_number \<Rightarrow> bool" where
  "roundsTo n m e v =
     (2 ^ 52 * 2 ^ e \<le> n \<and> n < 2 ^ 53 * 2 ^ e
      \<and> 2 ^ 52 \<le> m \<and> m \<le> 2 ^ 53
      \<and> 2 * \<bar>m * 2 ^ e - n\<bar> \<le> 2 ^ e
      \<and> (2 * \<bar>m * 2 ^ e - n\<bar> = 2 ^ e \<longrightarrow> even m)
      \<and> v = (if 2 ^ 1024 \<le> m * 2 ^ e then PlusInfinity else Num (m * 2 ^ e)))"

text \<open>
  A sample \<open>toUpperCase\<close>: the letters a to z move to A to Z and every other code unit
  stays, as \<open>toUpperCase\<close> does on ASCII text.
\<close>

definition asciiUpperCase :: "js_string \<Rightarrow> js_string" where
  "asciiUpperCase s = map (\<lambda>c. if 0x61 \<le> c \<and> c \<le> 0x7A then c - 0x20 else c) s"

text \<open>The number of results with a given status.\<close>

definition countStatus :: "status \<Rightarrow> ProcessingResult list \<Rightarrow> nat" where
  "countStatus st rs = length (filter (\<lambda>r. status r = st) rs)"

text \<open>The \<open>dryRun\<close> count of a summary, read as 0 when the summary has no such field.\<close>

definition dryRunOrZero :: "Summary \<Rightarrow> nat" where
  "dryRunOrZero s = (case Summary.dryRun s of None \<Rightarrow> 0 | Some d \<Rightarrow> d)"

text \<open>
  A request reaches the upload queue when both form fields are present, at least one
  file is valid, and no valid file has a SKU that names an inherited property.
\<close>

definition reachesQueue :: "ActionRequest \<Rightarrow> bool" where
  "reachesQueue request =
     (case settingsField request of
        None \<Rightarrow> False
      | Some _ \<Rightarrow>
          (case filesDataField request of
             None \<Rightarrow> False
           | Some metas \<Rightarrow>
               list_ex isValid metas
               \<and> \<not> list_ex (\<lambda>m. isValid m \<and> inheritedProperty (ParsedFile.sku m)) metas))"

subsection \<open>Sample inputs\<close>

text \<open>
  A remote side that knows one product, with SKU \<open>A\<close> and one existing image, accepts
  every upload step and refuses to delete.
\<close>

definition sampleAdmin :: AdminContext where
  "sampleAdmin =
     \<lparr>queryProductBySKU =
        (\<lambda>k. if k = ''A''
             then Inr (Some \<lparr>id' = ''gid-1'', title = ''Shirt'', mediaIds = [''m-1'']\<rparr>)
             else Inr None),
      createStagedUpload = (\<lambda>log f. Inr \<lparr>url = ''u'', resourceUrl = ''r'', parameters = []\<rparr>),
      uploadToStagedTarget = (\<lambda>log t f. Inr ()),
      createProductMedia = (\<lambda>log p r a. Inr ''m-2''),
      deleteProductMedia = (\<lambda>log p ms. Inl (ErrorObj ''denied'')),
      reorderProductMedia = (\<lambda>log p n. Inr ())\<rparr>"

definition sampleMeta :: "string \<Rightarrow> int \<Rightarrow> bool \<Rightarrow> FileMeta" where
  "sampleMeta k n v =
     \<lparr>originalFilename = k @ ''-'' @ numberToString n @ ''.jpg'', sku = k, sortOrder = n,
      isValid = v, error = None, fileType = ''image/jpeg'', fileSize = 1\<rparr>"

definition sampleSettings :: "bool \<Rightarrow> strategy \<Rightarrow> UploadSettings" where
  "sampleSettings d s =
     \<lparr>UploadSettings.dryRun = d, uploadStrategy = s, seoOptimization = True,
      altTextByPosition = Some [1 \<mapsto> [], 2 \<mapsto> ''Back'']\<rparr>"

definition emptyWorld :: world where
  "emptyWorld = \<lparr>calls = [], consoleErrors = []\<rparr>"

definition sampleRequest :: "bool \<Rightarrow> strategy \<Rightarrow> FileMeta list \<Rightarrow> ActionRequest" where
  "sampleRequest d s metas =
     \<lparr>settingsField = Some (sampleSettings d s), filesDataField = Some metas, fileBlobs = []\<rparr>"

text \<open>The results that the queue gives without uploading.\<close>

definition skippedResult :: "string \<Rightarrow> ParsedFileData \<Rightarrow> ProcessingResult" where
  "skippedResult key file =
     \<lparr>filename = originalFilename file, detectedSku = ParsedFile.sku file,
      productFound = False, productTitle = None, productId = None, status = Skipped,
      errorDetails = Some (''No product found with SKU: '' @ key)\<rparr>"

definition dryRunResult :: "ProductData \<Rightarrow> ParsedFileData \<Rightarrow> ProcessingResult" where
  "dryRunResult product file =
     \<lparr>filename = originalFilename file, detectedSku = ParsedFile.sku file,
      productFound = True, productTitle = Some (title product),
      productId = Some (id' product), status = DryRun, errorDetails = None\<rparr>"

text \<open>
  The calls that a function adds to the log, the three steps of an upload task, and the
  alt texts handed to the registration step.
\<close>

definition newCalls :: "world \<Rightarrow> world \<Rightarrow> call list" where
  "newCalls before after = drop (length (calls before)) (calls after)"

fun isUploadStep :: "call \<Rightarrow> bool" where
  "isUploadStep (CreateStagedUpload f) = True"
| "isUploadStep (UploadToStagedTarget t f) = True"
| "isUploadStep (CreateProductMedia p r a) = True"
| "isUploadStep (DeleteProductMedia p ms) = False"
| "isUploadStep (ReorderProductMedia p n) = False"

fun registeredAltTexts :: "call list \<Rightarrow> string option list" where
  "registeredAltTexts [] = []"
| "registeredAltTexts (CreateProductMedia p r a # cs) = a # registeredAltTexts cs"
| "registeredAltTexts (c # cs) = registeredAltTexts cs"

text \<open>
  The alt text of claim C6 in two readings: with the custom text whenever the position
  has an entry, and with the custom text only when that entry is not empty.
\<close>

definition defaultSuffix :: "int \<Rightarrow> string" where
  "defaultSuffix n = ''View '' @ padStart 2 CHR ''0'' (numberToString n)"

definition altTextWhenPresent :: "UploadSettings \<Rightarrow> ProductData \<Rightarrow> ParsedFileData \<Rightarrow> string" where
  "altTextWhenPresent settings product file =
     title product @ '' - '' @
       (case altTextByPosition settings of
          None \<Rightarrow> defaultSuffix (sortOrder file)
        | Some byPosition \<Rightarrow>
            (case byPosition (sortOrder file) of
               None \<Rightarrow> defaultSuffix (sortOrder file)
             | Some text \<Rightarrow> text))"

definition altTextWhenNonEmpty :: "UploadSettings \<Rightarrow> ProductData \<Rightarrow> ParsedFileData \<Rightarrow> string" where
  "altTextWhenNonEmpty settings product file =
     title product @ '' - '' @
       (case altTextByPosition settings of
          None \<Rightarrow> defaultSuffix (sortOrder file)
        | Some byPosition \<Rightarrow>
            (case byPosition (sortOrder file) of
               None \<Rightarrow> defaultSuffix (sortOrder file)
             | Some text \<Rightarrow> if text = [] then defaultSuffix (sortOrder file) else text))"

definition sampleProduct :: ProductData where
  "sampleProduct = \<lparr>id' = ''gid-1'', title = ''Shirt'', mediaIds = [''m-1'']\<rparr>"

definition sampleFile :: "string \<Rightarrow> int \<Rightarrow> ParsedFileData" where
  "sampleFile k n =
     \<lparr>originalFilename = k @ ''-'' @ numberToString n @ ''.jpg'', sku = k, sortOrder = n,
      isValid = True, error = None, fileType = ''image/jpeg'', fileSize = 1, fileData = [7]\<rparr>"

text \<open>The results of one SKU group when nothing is uploaded.\<close>

definition withoutUpload ::
  "(string \<rightharpoonup> ProductData) \<Rightarrow> string \<times> ParsedFileData list \<Rightarrow> ProcessingResult list" where
  "withoutUpload productMap entry =
     map (\<lambda>f. case productMap (fst entry) of
                 None \<Rightarrow> skippedResult (fst entry) f
               | Some product \<Rightarrow> dryRunResult product f) (snd entry)"

subsection \<open>Vocabulary of the pattern analysis\<close>

text \<open>
  The distinct SKUs of the valid files, the sort orders and the image count of a SKU, and
  the number of SKUs that have a given image count.
\<close>

definition validSkus :: "'a ParsedFile_scheme list \<Rightarrow> string list" where
  "validSkus files = remdups (map ParsedFile.sku (filter isValid files))"

definition skuOrders :: "'a ParsedFile_scheme list \<Rightarrow> string \<Rightarrow> int list" where
  "skuOrders files k = map sortOrder (filter (\<lambda>f. isValid f \<and> ParsedFile.sku f = k) files)"

definition skuCount :: "'a ParsedFile_scheme list \<Rightarrow> string \<Rightarrow> nat" where
  "skuCount files k = length (skuOrders files k)"

definition countFrequencyOf :: "'a ParsedFile_scheme list \<Rightarrow> nat \<Rightarrow> nat" where
  "countFrequencyOf files c = length (filter (\<lambda>k. skuCount files k = c) (validSkus files))"

text \<open>
  The gaps of a sequence of sort orders: the integers between its minimum and its
  maximum that it does not contain, ascending. The trailing numbers: the \<open>n\<close> integers
  that follow its maximum.
\<close>

definition gapNumbers :: "int list \<Rightarrow> int list" where
  "gapNumbers orders =
     (if orders = [] then []
      else filter (\<lambda>i. i \<notin> set orders) [Min (set orders) .. Max (set orders)])"

definition trailingNumbers :: "int list \<Rightarrow> nat \<Rightarrow> int list" where
  "trailingNumbers orders n = [Max (set orders) + 1 .. Max (set orders) + int n]"

text \<open>
  When a SKU gets a warning, in two readings: as claim C5 states it (gaps, or fewer
  images than the most common count), and as the code has it (the second condition
  counts only when the pattern is consistent).
\<close>

definition warrantsWarningAsClaimed :: "nat \<Rightarrow> 'a ParsedFile_scheme list \<Rightarrow> string \<Rightarrow> bool" where
  "warrantsWarningAsClaimed mostCommon files k =
     (gapNumbers (skuOrders files k) \<noteq> [] \<or> skuCount files k < mostCommon)"

definition warrantsWarning :: "bool \<Rightarrow> nat \<Rightarrow> 'a ParsedFile_scheme list \<Rightarrow> string \<Rightarrow> bool" where
  "warrantsWarning consistent mostCommon files k =
     (gapNumbers (skuOrders files k) \<noteq> [] \<or> (consistent \<and> skuCount files k < mostCommon))"

text \<open>The warning of a SKU: its gaps if it has any, else the trailing numbers it lacks.\<close>

definition expectedWarning :: "nat \<Rightarrow> 'a ParsedFile_scheme list \<Rightarrow> string \<Rightarrow> MissingImageWarning" where
  "expectedWarning mostCommon files k =
     \<lparr>MissingImageWarning.sku = k, expectedCount = mostCommon,
      actualCount = skuCount files k,
      missingNumbers =
        (if gapNumbers (skuOrders files k) \<noteq> [] then gapNumbers (skuOrders files k)
         else trailingNumbers (skuOrders files k) (mostCommon - skuCount files k)),
      hasGaps = (gapNumbers (skuOrders files k) \<noteq> [])\<rparr>"

text \<open>
  A sample collation for the witnesses: the comparison of two strings character by
  character, by character code.
\<close>

fun compareCodeUnits :: "string \<Rightarrow> string \<Rightarrow> int" where
  "compareCodeUnits [] [] = 0"
| "compareCodeUnits [] (y # ys) = -1"
| "compareCodeUnits (x # xs) [] = 1"
| "compareCodeUnits (x # xs) (y # ys) =
     (if (of_char x :: nat) < of_char y then -1
      else if (of_char y :: nat) < of_char x then 1
      else compareCodeUnits xs ys)"

definition sampleParsed :: "string \<Rightarrow> int \<Rightarrow> ParsedFile" where
  "sampleParsed k n =
     \<lparr>originalFilename = k @ ''-'' @ numberToString n @ ''.jpg'', sku = k, sortOrder = n,
      isValid = True, error = None\<rparr>"

text \<open>
  Five SKUs with 1, 2, 2, 3 and 3 images and no gaps: the most common count is 2, held
  by two SKUs out of five, so the pattern is not consistent.
\<close>

definition inconsistentFiles :: "ParsedFile list" where
  "inconsistentFiles =
     [sampleParsed ''A'' 1,
      sampleParsed ''B'' 1, sampleParsed ''B'' 2,
      sampleParsed ''C'' 1, sampleParsed ''C'' 2,
      sampleParsed ''D'' 1, sampleParsed ''D'' 2, sampleParsed ''D'' 3,
      sampleParsed ''E'' 1, sampleParsed ''E'' 2, sampleParsed ''E'' 3]"

text \<open>
  Four SKUs with 3, 1, 3 and 3 images, the third with a gap: the pattern is consistent,
  and the SKUs \<open>B\<close> and \<open>C\<close> get a warning.
\<close>

definition consistentFiles :: "ParsedFile list" where
  "consistentFiles =
     [sampleParsed ''D'' 1, sampleParsed ''D'' 2, sampleParsed ''D'' 3,
      sampleParsed ''C'' 1, sampleParsed ''C'' 2, sampleParsed ''C'' 5,
      sampleParsed ''B'' 4,
      sampleParsed ''A'' 1, sampleParsed ''A'' 2, sampleParsed ''A'' 3]"

text \<open>Two SKUs with 2 and 1 images: both counts occur once.\<close>

definition tiedFiles :: "ParsedFile list" where
  "tiedFiles = [sampleParsed ''B'' 1, sampleParsed ''B'' 2, sampleParsed ''A'' 1]"

subsection \<open>Auxiliary notions\<close>

text \<open>
  The array stored under a key, the frequency stored for a count, and the shape that the
  frequency table keeps: counts strictly ascending, every frequency positive.
\<close>

definition lookupList :: "'a list js_object \<Rightarrow> string \<Rightarrow> 'a list" where
  "lookupList obj k = (case map_of obj k of None \<Rightarrow> [] | Some xs \<Rightarrow> xs)"

definition freqOf :: "(nat \<times> nat) list \<Rightarrow> nat \<Rightarrow> nat" where
  "freqOf cf c = (case map_of cf c of None \<Rightarrow> 0 | Some n \<Rightarrow> n)"

definition wellFormedFrequency :: "(nat \<times> nat) list \<Rightarrow> bool" where
  "wellFormedFrequency cf = (sorted_wrt (<) (map fst cf) \<and> (\<forall>e \<in> set cf. 0 < snd e))"

section \<open>Properties of the string primitives\<close>

subsection \<open>The last occurrence and the substrings\<close>

lemma lastIndexFrom_cases:
  "(c \<notin> set xs \<and> lastIndexFrom c xs i found = found) \<or>
   (\<exists>k. isLastIndex c xs k \<and> lastIndexFrom c xs i found = i + int k)"
proof (induction xs arbitrary: i found)
  case Nil
  then show ?case by simp
next
  case (Cons x xs)
  from Cons.IH [of "i + 1" "if x = c then i else found"]
  show ?case
  proof
    assume a: "c \<notin> set xs \<and>
      lastIndexFrom c xs (i + 1) (if x = c then i else found) = (if x = c then i else found)"
    show ?thesis
    proof (cases "x = c")
      case True
      with a have "isLastIndex c (x # xs) 0" by (simp add: isLastIndex_def)
      moreover from a True have "lastIndexFrom c (x # xs) i found = i + int 0" by simp
      ultimately show ?thesis by blast
    next
      case False
      with a show ?thesis by simp
    qed
  next
    assume "\<exists>k. isLastIndex c xs k \<and>
      lastIndexFrom c xs (i + 1) (if x = c then i else found) = i + 1 + int k"
    then obtain k where k: "isLastIndex c xs k"
      and r: "lastIndexFrom c xs (i + 1) (if x = c then i else found) = i + 1 + int k"
      by blast
    from k have "isLastIndex c (x # xs) (Suc k)" by (simp add: isLastIndex_def)
    moreover from r have "lastIndexFrom c (x # xs) i found = i + int (Suc k)" by simp
    ultimately show ?thesis by blast
  qed
qed

lemma isLastIndex_mem: "isLastIndex c s k \<Longrightarrow> c \<in> set s"
  by (auto simp: isLastIndex_def)

lemma isLastIndex_unique: "isLastIndex c s k \<Longrightarrow> isLastIndex c s j \<Longrightarrow> k = j"
proof (rule ccontr)
  assume a: "isLastIndex c s k" and b: "isLastIndex c s j" and ne: "k \<noteq> j"
  have aux: "\<And>p q. isLastIndex c s p \<Longrightarrow> isLastIndex c s q \<Longrightarrow> p < q \<Longrightarrow> False"
  proof -
    fix p q assume p: "isLastIndex c s p" and q: "isLastIndex c s q" and lt: "p < q"
    from q have ql: "q < length s" and qc: "s ! q = c" by (simp_all add: isLastIndex_def)
    from lt ql have "drop (Suc p) s ! (q - Suc p) = s ! q" by simp
    moreover from lt ql have "q - Suc p < length (drop (Suc p) s)" by simp
    ultimately have "s ! q \<in> set (drop (Suc p) s)" by (metis nth_mem)
    with qc p show False by (simp add: isLastIndex_def)
  qed
  from ne have "k < j \<or> j < k" by arith
  with aux a b show False by blast
qed

lemma lastIndexOf_absent: "(lastIndexOf s c = -1) = (c \<notin> set s)"
  using lastIndexFrom_cases [of c s 0 "-1"] isLastIndex_mem [of c s]
  by (auto simp: lastIndexOf_def)

lemma lastIndexOf_present:
  "lastIndexOf s c \<noteq> -1 \<Longrightarrow> \<exists>k. lastIndexOf s c = int k \<and> isLastIndex c s k"
  using lastIndexFrom_cases [of c s 0 "-1"]
  by (auto simp: lastIndexOf_def)

lemma lastIndexOf_isLastIndex: "isLastIndex c s k \<Longrightarrow> lastIndexOf s c = int k"
proof -
  assume a: "isLastIndex c s k"
  then have "c \<in> set s" by (rule isLastIndex_mem)
  then have "lastIndexOf s c \<noteq> -1" by (simp add: lastIndexOf_absent)
  from lastIndexOf_present [OF this]
  obtain j where j: "lastIndexOf s c = int j" and l: "isLastIndex c s j"
    by (elim exE conjE)
  from l a have "j = k" by (rule isLastIndex_unique)
  then show ?thesis unfolding j by (rule arg_cong)
qed

lemma substring_prefix: "k \<le> length s \<Longrightarrow> substring s 0 (int k) = take k s"
  by (simp add: substring_def Let_def)

lemma substringFrom_suffix: "k \<le> length s \<Longrightarrow> substringFrom s (int k) = drop k s"
  by (simp add: substringFrom_def substring_def Let_def)

lemma isLastIndex_split:
  "isLastIndex c s k \<Longrightarrow> s = take k s @ c # drop (Suc k) s"
proof -
  assume a: "isLastIndex c s k"
  then have l: "k < length s" and c: "s ! k = c" by (simp_all add: isLastIndex_def)
  from l have "s = take k s @ s ! k # drop (Suc k) s" by (rule id_take_nth_drop)
  then show ?thesis unfolding c .
qed

lemma isLastIndex_append:
  "c \<notin> set rest \<Longrightarrow> isLastIndex c (pre @ c # rest) (length pre)"
  by (simp add: isLastIndex_def)

subsection \<open>The extension\<close>

text \<open>
  \<open>removeExtension\<close> does what the regular expression says: when the file name ends
  in an extension, that extension is cut off, and a file name that is returned whole has
  no suffix that is an extension.
\<close>

lemma removeExtension_regex:
  "(\<exists>ext. isExtension ext \<and> fname = removeExtension fname @ ext)
   \<or> (removeExtension fname = fname
       \<and> (\<forall>pre ext. fname = pre @ ext \<longrightarrow> \<not> isExtension ext))"
proof (cases "lastIndexOf fname 0x2E = -1")
  case True
  then have nodot: "0x2E \<notin> set fname" by (simp add: lastIndexOf_absent)
  have none: "\<forall>pre ext. fname = pre @ ext \<longrightarrow> \<not> isExtension ext"
  proof (intro allI impI)
    fix pre ext assume f: "fname = pre @ ext"
    show "\<not> isExtension ext"
    proof
      assume "isExtension ext"
      then have "0x2E \<in> set ext" by (auto simp: isExtension_def split: list.splits)
      with f nodot show False by simp
    qed
  qed
  from True have "removeExtension fname = fname"
    by (simp add: removeExtension_def Let_def)
  then show ?thesis using none by (intro disjI2 conjI)
next
  case False
  from lastIndexOf_present [OF False]
  obtain k where k: "lastIndexOf fname 0x2E = int k" and last: "isLastIndex 0x2E fname k"
    by (elim exE conjE)
  from last have kl: "k < length fname" by (simp add: isLastIndex_def)
  have pre: "substring fname 0 (int k) = take k fname" using kl by (simp add: substring_prefix)
  have suf: "substringFrom fname (int k + 1) = drop (Suc k) fname"
    using kl substringFrom_suffix [of "Suc k" fname] by (simp add: add.commute)
  let ?rest = "drop (Suc k) fname"
  from last have nodot: "0x2E \<notin> set ?rest" by (simp add: isLastIndex_def)
  from last have split: "fname = take k fname @ 0x2E # ?rest" by (rule isLastIndex_split)
  show ?thesis
  proof (cases "?rest \<noteq> [] \<and> 0x2F \<notin> set ?rest")
    case True
    then have r: "removeExtension fname = take k fname"
      using False k by (simp add: removeExtension_def Let_def pre suf)
    from True nodot have e: "isExtension (0x2E # ?rest)" by (simp add: isExtension_def)
    have "fname = removeExtension fname @ 0x2E # ?rest" by (subst r) (rule split)
    with e have "\<exists>ext. isExtension ext \<and> fname = removeExtension fname @ ext"
      by (intro exI conjI)
    then show ?thesis by (rule disjI1)
  next
    case no: False
    then have r: "removeExtension fname = fname"
      using k by (auto simp: removeExtension_def Let_def pre suf)
    have none: "\<forall>p ext. fname = p @ ext \<longrightarrow> \<not> isExtension ext"
    proof (intro allI impI)
      fix p ext assume f: "fname = p @ ext"
      show "\<not> isExtension ext"
      proof
        assume "isExtension ext"
        then obtain rest' where e: "ext = 0x2E # rest'" and ne: "rest' \<noteq> []"
          and nd: "0x2E \<notin> set rest'" and ns: "0x2F \<notin> set rest'"
          by (auto simp: isExtension_def split: list.splits)
        from nd have "isLastIndex 0x2E (p @ 0x2E # rest') (length p)" by (rule isLastIndex_append)
        with f e have "isLastIndex 0x2E fname (length p)" by simp
        with last have kp: "k = length p" by (rule isLastIndex_unique)
        with f e have "?rest = rest'" by simp
        with ne ns no show False by simp
      qed
    qed
    from r none show ?thesis by (intro disjI2 conjI)
  qed
qed

lemma removeExtension_withoutExtension: "withoutExtension fname (removeExtension fname)"
proof -
  let ?n = "removeExtension fname"
  from removeExtension_regex [of fname] show ?thesis
  proof
    assume "\<exists>ext. isExtension ext \<and> fname = ?n @ ext"
    then obtain ext where e: "isExtension ext" and f: "fname = ?n @ ext" by (elim exE conjE)
    from e have ne: "ext \<noteq> []" by (auto simp: isExtension_def)
    have "drop (length ?n) (?n @ ext) = ext" by simp
    then have d: "drop (length ?n) fname = ext" by (subst f)
    have "length (?n @ ext) = length ?n + length ext" by simp
    then have "length fname = length ?n + length ext" by (subst f)
    with ne have "length ?n < length fname" by simp
    then have "length ?n \<in> set [0..<length fname]" by simp
    with e d have c: "\<exists>i \<in> set [0..<length fname]. isExtension (drop i fname)"
      by (intro bexI [of _ "length ?n"]) simp_all
    have "?n @ drop (length ?n) fname = fname" unfolding d by (rule f [symmetric])
    moreover from e have "isExtension (drop (length ?n) fname)" unfolding d .
    ultimately show ?thesis unfolding withoutExtension_def using c by (simp only: if_True simp_thms)
  next
    assume a: "?n = fname \<and> (\<forall>pre ext. fname = pre @ ext \<longrightarrow> \<not> isExtension ext)"
    then have same: "?n = fname" by (rule conjunct1)
    from a have none: "\<forall>pre ext. fname = pre @ ext \<longrightarrow> \<not> isExtension ext" by (rule conjunct2)
    have "\<not> (\<exists>i \<in> set [0..<length fname]. isExtension (drop i fname))"
    proof
      assume "\<exists>i \<in> set [0..<length fname]. isExtension (drop i fname)"
      then obtain i where i: "isExtension (drop i fname)" by (elim bexE)
      have "fname = take i fname @ drop i fname" by simp
      with none have "\<not> isExtension (drop i fname)" by (elim allE impE)
      with i show False by (rule notE [rotated])
    qed
    then show ?thesis unfolding withoutExtension_def using same by (simp only: if_False)
  qed
qed

subsection \<open>White space\<close>

lemma isWhiteSpace_not_digit: "isWhiteSpace c \<Longrightarrow> \<not> isDecimalDigit c"
  by (auto simp: isWhiteSpace_def isDecimalDigit_def)

lemma trimStart_trimStart: "trimStart (trimStart s) = trimStart s"
  by (simp add: trimStart_def)

lemma takeWhile_digit_spaces:
  "\<forall>c \<in> set w. isWhiteSpace c \<Longrightarrow>
     takeWhile isDecimalDigit (b @ w) = takeWhile isDecimalDigit b"
proof (induction b)
  case Nil
  then show ?case by (cases w) (auto simp: isWhiteSpace_not_digit)
next
  case (Cons x b)
  then show ?case by simp
qed

lemma trimEnd_split: "\<exists>w. s = trimEnd s @ w \<and> (\<forall>c \<in> set w. isWhiteSpace c)"
proof -
  have "s = rev (takeWhile isWhiteSpace (rev s) @ dropWhile isWhiteSpace (rev s))"
    by (simp only: takeWhile_dropWhile_id rev_rev_ident)
  also have "\<dots> = rev (dropWhile isWhiteSpace (rev s)) @ rev (takeWhile isWhiteSpace (rev s))"
    by (rule rev_append)
  finally have "s = trimEnd s @ rev (takeWhile isWhiteSpace (rev s))"
    by (simp add: trimEnd_def)
  moreover have "\<forall>c \<in> set (rev (takeWhile isWhiteSpace (rev s))). isWhiteSpace c"
    by (auto dest: set_takeWhileD)
  ultimately show ?thesis by blast
qed

lemma trimStart_head: "trimStart s = [] \<or> \<not> isWhiteSpace (hd (trimStart s))"
  unfolding trimStart_def by (metis hd_dropWhile)

lemma trimEnd_last: "trimEnd s = [] \<or> \<not> isWhiteSpace (last (trimEnd s))"
proof (cases "dropWhile isWhiteSpace (rev s) = []")
  case True
  then show ?thesis by (simp add: trimEnd_def)
next
  case False
  then have "\<not> isWhiteSpace (hd (dropWhile isWhiteSpace (rev s)))" by (rule hd_dropWhile)
  with False show ?thesis by (simp add: trimEnd_def last_rev)
qed

lemma trimStart_split: "\<exists>a. s = a @ trimStart s \<and> (\<forall>c \<in> set a. isWhiteSpace c)"
proof -
  have "s = takeWhile isWhiteSpace s @ trimStart s"
    by (simp add: trimStart_def)
  moreover have "\<forall>c \<in> set (takeWhile isWhiteSpace s). isWhiteSpace c"
    by (auto dest: set_takeWhileD)
  ultimately show ?thesis by blast
qed

lemma trim_head: "trim s = [] \<or> \<not> isWhiteSpace (hd (trim s))"
proof (cases "trim s = []")
  case True
  then show ?thesis by simp
next
  case False
  let ?t = "trimStart s"
  obtain w where split: "?t = trimEnd ?t @ w" using trimEnd_split by blast
  from False have ne: "trimEnd ?t \<noteq> []" by (simp add: trim_def)
  then have "hd (trimEnd ?t @ w) = hd (trimEnd ?t)" by (rule hd_append2)
  then have h: "hd ?t = hd (trimEnd ?t)" by (subst split)
  from ne have "trimEnd ?t @ w \<noteq> []" by simp
  then have "?t \<noteq> []" by (subst split)
  with trimStart_head [of s] have "\<not> isWhiteSpace (hd ?t)" by blast
  then show ?thesis unfolding h by (simp add: trim_def)
qed

text \<open>
  \<open>trim\<close> removes white space, all of it and nothing else, from the two ends.
\<close>

lemma trim_spec:
  "\<exists>a b. s = a @ trim s @ b
         \<and> (\<forall>c \<in> set a. isWhiteSpace c) \<and> (\<forall>c \<in> set b. isWhiteSpace c)
         \<and> (trim s = [] \<or> (\<not> isWhiteSpace (hd (trim s)) \<and> \<not> isWhiteSpace (last (trim s))))"
proof -
  obtain a where a: "s = a @ trimStart s" and wa: "\<forall>c \<in> set a. isWhiteSpace c"
    using trimStart_split by blast
  obtain b where b: "trimStart s = trimEnd (trimStart s) @ b" and wb: "\<forall>c \<in> set b. isWhiteSpace c"
    using trimEnd_split by blast
  have "a @ trimStart s = a @ trim s @ b" unfolding trim_def by (subst b) (rule refl)
  then have split: "s = a @ trim s @ b" by (subst a)
  have ends: "trim s = [] \<or> (\<not> isWhiteSpace (hd (trim s)) \<and> \<not> isWhiteSpace (last (trim s)))"
    using trim_head [of s] trimEnd_last [of "trimStart s"] unfolding trim_def by blast
  from split wa wb ends show ?thesis by (intro exI conjI)
qed

lemma trim_isTrimOf: "isTrimOf (trim s) s"
proof -
  obtain a b where split: "s = a @ trim s @ b"
    and wa: "\<forall>c \<in> set a. isWhiteSpace c" and wb: "\<forall>c \<in> set b. isWhiteSpace c"
    and ends: "trim s = [] \<or> (\<not> isWhiteSpace (hd (trim s)) \<and> \<not> isWhiteSpace (last (trim s)))"
    using trim_spec [of s] by (elim exE conjE)
  let ?t = "trim s"
  have len: "length (a @ ?t @ b) = length a + length ?t + length b" by simp
  have "length s = length a + length ?t + length b" by (subst split) (rule len)
  then have i: "length a \<in> set [0..<Suc (length s)]" by simp
  have "take (length a) (a @ ?t @ b) = a" by simp
  then have ta: "take (length a) s = a" by (subst split)
  have "drop (length a) (a @ ?t @ b) = ?t @ b" by simp
  then have da: "drop (length a) s = ?t @ b" by (subst split)
  have "drop (length a + length ?t) (a @ ?t @ b) = b" by simp
  then have db: "drop (length a + length ?t) s = b" by (subst split)
  from wa have 1: "list_all isWhiteSpace (take (length a) s)" unfolding ta by (simp add: list_all_iff)
  have 2: "?t = take (length ?t) (drop (length a) s)" unfolding da by simp
  from wb have 3: "list_all isWhiteSpace (drop (length a + length ?t) s)"
    unfolding db by (simp add: list_all_iff)
  from i 1 2 3 ends show ?thesis unfolding isTrimOf_def by (intro bexI [of _ "length a"] conjI)
qed

subsection \<open>parseInt\<close>

lemma decimalDigits_spaces:
  assumes hd: "u = [] \<or> \<not> isWhiteSpace (hd u)"
    and ne: "u = [] \<Longrightarrow> w = []"
    and w: "\<forall>c \<in> set w. isWhiteSpace c"
  shows "trimStart (u @ w) = u @ w \<and> trimStart u = u
         \<and> decimalDigits (u @ w) = decimalDigits u"
proof (cases u)
  case Nil
  with ne show ?thesis by (simp add: trimStart_def)
next
  case (Cons x xs)
  with hd have nx: "\<not> isWhiteSpace x" by simp
  have t1: "trimStart (u @ w) = x # (xs @ w)" using Cons nx by (simp add: trimStart_def)
  have t2: "trimStart u = x # xs" using Cons nx by (simp add: trimStart_def)
  have "decimalDigits (u @ w) = decimalDigits u"
    unfolding decimalDigits_def t1 t2 using w
    by (simp add: Let_def takeWhile_digit_spaces)
  with t1 t2 Cons show ?thesis by simp
qed

text \<open>White space after the text does not change what \<open>parseInt\<close> reads.\<close>

lemma parseInt10_spaces:
  assumes hd: "u = [] \<or> \<not> isWhiteSpace (hd u)"
    and ne: "u = [] \<Longrightarrow> w = []"
    and w: "\<forall>c \<in> set w. isWhiteSpace c"
  shows "parseInt10 (u @ w) = parseInt10 u"
proof (cases u)
  case Nil
  with ne show ?thesis by simp
next
  case (Cons x xs)
  from hd ne w
  have "trimStart (u @ w) = u @ w \<and> trimStart u = u
         \<and> decimalDigits (u @ w) = decimalDigits u" by (rule decimalDigits_spaces)
  then have t1: "trimStart (u @ w) = u @ w" and t2: "trimStart u = u"
    and d: "decimalDigits (u @ w) = decimalDigits u" by simp_all
  show ?thesis unfolding parseInt10_def t1 t2 d using Cons by (simp add: Let_def)
qed

lemma decimalDigits_trimStart: "decimalDigits (trimStart s) = decimalDigits s"
  by (simp add: decimalDigits_def trimStart_trimStart)

lemma parseInt10_trimStart: "parseInt10 (trimStart s) = parseInt10 s"
  by (simp add: parseInt10_def trimStart_trimStart decimalDigits_trimStart)

text \<open>\<open>parseInt\<close> skips white space itself, so trimming its argument is redundant.\<close>

lemma trim_suffix_spaces:
  "\<exists>w. trimStart s = trim s @ w \<and> (\<forall>c \<in> set w. isWhiteSpace c)
       \<and> (trim s = [] \<or> \<not> isWhiteSpace (hd (trim s))) \<and> (trim s = [] \<longrightarrow> w = [])"
proof -
  let ?t = "trimStart s"
  obtain w where split: "?t = trimEnd ?t @ w" and w: "\<forall>c \<in> set w. isWhiteSpace c"
    using trimEnd_split by blast
  have hd_t: "?t = [] \<or> \<not> isWhiteSpace (hd ?t)" by (rule trimStart_head)
  have ne: "trimEnd ?t = [] \<longrightarrow> w = []"
  proof
    assume e: "trimEnd ?t = []"
    have tw: "?t = w" by (subst split) (simp add: e)
    show "w = []"
    proof (rule ccontr)
      assume "w \<noteq> []"
      then have "hd w \<in> set w" by simp
      with w have "isWhiteSpace (hd w)" by blast
      with hd_t \<open>w \<noteq> []\<close> show False unfolding tw by simp
    qed
  qed
  from split w trim_head [of s] ne show ?thesis unfolding trim_def by (intro exI conjI)
qed

lemma decimalDigits_trim: "decimalDigits (trim s) = decimalDigits s"
proof -
  obtain w where split: "trimStart s = trim s @ w" and w: "\<forall>c \<in> set w. isWhiteSpace c"
    and h: "trim s = [] \<or> \<not> isWhiteSpace (hd (trim s))" and ne: "trim s = [] \<longrightarrow> w = []"
    using trim_suffix_spaces by blast
  from ne have ne': "trim s = [] \<Longrightarrow> w = []" by (rule mp)
  have "decimalDigits (trim s @ w) = decimalDigits (trim s)"
    using h ne' w by (rule decimalDigits_spaces [THEN conjunct2, THEN conjunct2])
  then have "decimalDigits (trimStart s) = decimalDigits (trim s)" by (subst split)
  then show ?thesis by (simp add: decimalDigits_trimStart)
qed

lemma parseInt10_trim: "parseInt10 (trim s) = parseInt10 s"
proof -
  obtain w where split: "trimStart s = trim s @ w" and w: "\<forall>c \<in> set w. isWhiteSpace c"
    and h: "trim s = [] \<or> \<not> isWhiteSpace (hd (trim s))" and ne: "trim s = [] \<longrightarrow> w = []"
    using trim_suffix_spaces by blast
  from ne have ne': "trim s = [] \<Longrightarrow> w = []" by (rule mp)
  have "parseInt10 (trim s @ w) = parseInt10 (trim s)"
    using h ne' w by (rule parseInt10_spaces)
  then have "parseInt10 (trimStart s) = parseInt10 (trim s)" by (subst split)
  then show ?thesis by (simp add: parseInt10_trimStart)
qed

text \<open>A text without \<open>-\<close> is read without a sign change.\<close>

lemma parseInt10_unsigned:
  assumes "0x2D \<notin> set s"
  shows "parseInt10 s = (if decimalDigits s = [] then None
                         else Some (toNumber (decimalValue (decimalDigits s))))"
proof -
  have "set (trimStart s) \<subseteq> set s" unfolding trimStart_def by (rule set_dropWhileD [THEN subsetI])
  with assms have "0x2D \<notin> set (trimStart s)" by blast
  then have "trimStart s = [] \<or> hd (trimStart s) \<noteq> 0x2D"
    by (cases "trimStart s") auto
  then show ?thesis by (auto simp: parseInt10_def Let_def)
qed

lemma parseInt10_None_iff: "(parseInt10 s = None) = (decimalDigits s = [])"
  by (simp add: parseInt10_def Let_def)

text \<open>
  The digits that \<open>parseInt\<close> reads: the text is white space, an optional sign, the
  digits, and a rest that does not start with a digit. The digits denote their integer
  in positional notation.
\<close>

lemma decimalDigits_digits: "\<forall>d \<in> set (decimalDigits s). isDecimalDigit d"
  by (auto simp: decimalDigits_def Let_def dest: set_takeWhileD)

lemma decimalDigits_spec:
  "\<exists>a sg rest. s = a @ sg @ decimalDigits s @ rest
       \<and> (\<forall>c \<in> set a. isWhiteSpace c)
       \<and> (sg = [] \<or> sg = [0x2B] \<or> sg = [0x2D])
       \<and> (\<forall>d \<in> set (decimalDigits s). isDecimalDigit d)
       \<and> (rest = [] \<or> \<not> isDecimalDigit (hd rest))
       \<and> (sg = [] \<longrightarrow> decimalDigits s @ rest = []
             \<or> (\<not> isWhiteSpace (hd (decimalDigits s @ rest))
                 \<and> hd (decimalDigits s @ rest) \<noteq> 0x2B \<and> hd (decimalDigits s @ rest) \<noteq> 0x2D))"
proof -
  let ?t = "trimStart s"
  let ?sg = "if ?t \<noteq> [] \<and> (hd ?t = 0x2B \<or> hd ?t = 0x2D) then [hd ?t] else []"
  let ?body = "if ?t \<noteq> [] \<and> (hd ?t = 0x2B \<or> hd ?t = 0x2D) then tl ?t else ?t"
  let ?rest = "dropWhile isDecimalDigit ?body"
  obtain a where a: "s = a @ ?t" and wa: "\<forall>c \<in> set a. isWhiteSpace c"
    using trimStart_split by blast
  have z: "decimalDigits s = takeWhile isDecimalDigit ?body"
    by (simp add: decimalDigits_def Let_def)
  have tb: "?t = ?sg @ ?body" by simp
  have bz: "?body = decimalDigits s @ ?rest" unfolding z by simp
  have "a @ ?t = a @ ?sg @ decimalDigits s @ ?rest" by (subst tb, subst bz) (rule refl)
  then have 1: "s = a @ ?sg @ decimalDigits s @ ?rest" by (subst a)
  have 3: "?sg = [] \<or> ?sg = [0x2B] \<or> ?sg = [0x2D]" by simp
  have 5: "?rest = [] \<or> \<not> isDecimalDigit (hd ?rest)" by (metis hd_dropWhile)
  have 6: "?sg = [] \<longrightarrow> decimalDigits s @ ?rest = []
             \<or> (\<not> isWhiteSpace (hd (decimalDigits s @ ?rest))
                 \<and> hd (decimalDigits s @ ?rest) \<noteq> 0x2B \<and> hd (decimalDigits s @ ?rest) \<noteq> 0x2D)"
  proof
    assume e: "?sg = []"
    then have ns: "?t = [] \<or> (hd ?t \<noteq> 0x2B \<and> hd ?t \<noteq> 0x2D)"
      by (auto split: if_splits)
    then have "?body = ?t" by auto
    with bz have t: "decimalDigits s @ ?rest = ?t" by simp
    note ns
    with trimStart_head [of s] ns
    show "decimalDigits s @ ?rest = []
             \<or> (\<not> isWhiteSpace (hd (decimalDigits s @ ?rest))
                 \<and> hd (decimalDigits s @ ?rest) \<noteq> 0x2B \<and> hd (decimalDigits s @ ?rest) \<noteq> 0x2D)"
      unfolding t by blast
  qed
  from 1 wa 3 decimalDigits_digits [of s] 5 6 show ?thesis by (intro exI conjI)
qed

lemma decimalValue_snoc: "decimalValue (ds @ [d]) = 10 * decimalValue ds + (d - 48)"
  by (simp add: decimalValue_def)

subsection \<open>The Number value of an integer\<close>

text \<open>An integer below \<open>2^53\<close> is its own Number value.\<close>

lemma toNumber_exact: "n < 2 ^ 53 \<Longrightarrow> toNumber n = Num n"
  unfolding toNumber_def by (rule if_P)

text \<open>\<open>bitLength n\<close> is the number of bits of \<open>n\<close>.\<close>

lemma bitLength_pos: "0 < n \<Longrightarrow> bitLength n = Suc (bitLength (n div 2))"
  by (subst bitLength.simps) simp

lemma bitLength_nonpos: "n \<le> 0 \<Longrightarrow> bitLength n = 0"
  by (subst bitLength.simps) simp

lemma bitLength_upper: "n < 2 ^ bitLength n"
proof (induction n rule: bitLength.induct)
  case (1 n)
  show ?case
  proof (cases "n \<le> 0")
    case True
    then show ?thesis by (simp add: bitLength_nonpos)
  next
    case False
    then have "n div 2 < 2 ^ bitLength (n div 2)" by (rule 1)
    then have "n < 2 * 2 ^ bitLength (n div 2)" by linarith
    with False show ?thesis by (simp add: bitLength_pos)
  qed
qed

lemma bitLength_lower: "0 < n \<Longrightarrow> 2 ^ (bitLength n - 1) \<le> n"
proof (induction n rule: bitLength.induct)
  case (1 n)
  from 1 have pos: "0 < n" by simp
  then have bl: "bitLength n = Suc (bitLength (n div 2))" by (rule bitLength_pos)
  show ?case
  proof (cases "0 < n div 2")
    case True
    from pos have "\<not> n \<le> 0" by simp
    from 1(1) [OF this True] have ih: "2 ^ (bitLength (n div 2) - 1) \<le> n div 2" .
    from True have "bitLength (n div 2) = Suc (bitLength (n div 2) - 1)"
      by (simp add: bitLength_pos)
    then have "(2::int) ^ bitLength (n div 2) = 2 * 2 ^ (bitLength (n div 2) - 1)"
      by (metis power_Suc)
    with ih have "2 ^ bitLength (n div 2) \<le> 2 * (n div 2)" by linarith
    also have "\<dots> \<le> n" by linarith
    finally show ?thesis by (simp add: bl)
  next
    case False
    then have "bitLength (n div 2) = 0" by (simp add: bitLength_nonpos)
    with pos show ?thesis by (simp add: bl)
  qed
qed

text \<open>
  From \<open>2^53\<close> on, the Number value is the nearest of the doubles around the
  integer, the even one of two nearest, and \<open>Infinity\<close> from \<open>2^1024\<close> on.
\<close>

lemma toNumber_nearest:
  assumes big: "\<not> n < 2 ^ 53"
  shows "\<exists>m e. 2 ^ 52 * 2 ^ e \<le> n \<and> n < 2 ^ 53 * 2 ^ e
           \<and> 2 ^ 52 \<le> m \<and> m \<le> 2 ^ 53
           \<and> 2 * \<bar>m * 2 ^ e - n\<bar> \<le> 2 ^ e
           \<and> (2 * \<bar>m * 2 ^ e - n\<bar> = 2 ^ e \<longrightarrow> even m)
           \<and> toNumber n = (if 2 ^ 1024 \<le> m * 2 ^ e then PlusInfinity else Num (m * 2 ^ e))"
proof -
  define e where "e = bitLength n - 53"
  define P :: int where "P = 2 ^ e"
  define H :: int where "H = 2 ^ (e - 1)"
  define q where "q = n div P"
  define r where "r = n mod P"
  define m where "m = (if H < r \<or> (r = H \<and> odd q) then q + 1 else q)"
  have t: "toNumber n = (if 2 ^ 1024 \<le> m * 2 ^ e then PlusInfinity else Num (m * 2 ^ e))"
    unfolding toNumber_def Let_def m_def r_def q_def H_def P_def e_def using big by (rule if_not_P)
  from big have npos: "0 < n" by simp
  have bl: "53 < bitLength n"
  proof (rule ccontr)
    assume "\<not> 53 < bitLength n"
    then have "bitLength n \<le> 53" by simp
    then have "(2::int) ^ bitLength n \<le> 2 ^ 53" by (rule power_increasing) simp
    with bitLength_upper [of n] have "n < 2 ^ 53" by (rule less_le_trans)
    with big show False by simp
  qed
  then have e1: "e - 1 + 1 = e" and e52: "bitLength n - 1 = 52 + e" and e53: "bitLength n = 53 + e"
    by (simp_all add: e_def)
  have Ppos: "0 < P" by (simp add: P_def)
  have PH: "P = 2 * H"
  proof -
    have "(2::int) ^ (e - 1 + 1) = 2 * 2 ^ (e - 1)" by (simp only: power_add power_one_right mult.commute)
    then show ?thesis unfolding P_def H_def e1 .
  qed
  have lo: "2 ^ 52 * P \<le> n"
    using bitLength_lower [OF npos] unfolding e52 power_add P_def .
  have hi: "n < 2 ^ 53 * P"
    using bitLength_upper [of n] unfolding e53 power_add P_def .
  have split: "n = q * P + r" by (simp add: q_def r_def)
  have r0: "0 \<le> r" and rP: "r < P" using Ppos by (simp_all add: r_def)
  have qlo: "2 ^ 52 \<le> q"
  proof (rule ccontr)
    assume "\<not> 2 ^ 52 \<le> q"
    then have "q + 1 \<le> 2 ^ 52" by simp
    then have "(q + 1) * P \<le> 2 ^ 52 * P" using Ppos by (simp only: mult_le_cancel_right_pos)
    moreover have "n < (q + 1) * P" using split rP by (simp add: algebra_simps)
    ultimately show False using lo by linarith
  qed
  have qhi: "q < 2 ^ 53"
  proof (rule ccontr)
    assume "\<not> q < 2 ^ 53"
    then have "2 ^ 53 \<le> q" by simp
    then have "2 ^ 53 * P \<le> q * P" using Ppos by (simp only: mult_le_cancel_right_pos)
    moreover have "q * P \<le> n" using split r0 by simp
    ultimately show False using hi by linarith
  qed
  have mP: "m * P = (if H < r \<or> (r = H \<and> odd q) then q * P + P else q * P)"
    by (simp add: m_def algebra_simps)
  have near: "2 * \<bar>m * P - n\<bar> \<le> P"
    using r0 rP PH split unfolding mP by (simp split: if_splits) 
  have tie: "2 * \<bar>m * P - n\<bar> = P \<longrightarrow> even m"
  proof
    assume "2 * \<bar>m * P - n\<bar> = P"
    then have "r = H" using r0 rP PH split unfolding mP by (simp split: if_splits)
    then show "even m" by (simp add: m_def)
  qed
  have mlo: "2 ^ 52 \<le> m" and mhi: "m \<le> 2 ^ 53" using qlo qhi by (simp_all add: m_def)
  from lo hi mlo mhi near tie t show ?thesis unfolding P_def by (intro exI conjI)
qed

lemma toNumber_roundsTo:
  "\<not> n < 2 ^ 53 \<Longrightarrow> \<exists>m e. roundsTo n m e (toNumber n)"
  unfolding roundsTo_def by (rule toNumber_nearest)

section \<open>Properties of parseFilename\<close>

text \<open>
  White space outside ASCII counts: a prefix that is a no-break space is blank, a
  no-break space before the digits is skipped, and so are a byte order mark, a line
  separator and an ideographic space.
\<close>

lemma parseFilename_unicode_space_examples:
  "parseFilename asciiUpperCase ([0xA0, 0x2D] @ utf16 ''xx.jpg'') = Inl EmptySku
   \<and> parseFilename asciiUpperCase (utf16 ''A-'' @ [0xA0] @ utf16 ''12.jpg'')
       = Inr \<lparr>pr_sku = utf16 ''A'', pr_sortOrder = Num 12\<rparr>
   \<and> parseFilename asciiUpperCase ([0xFEFF] @ utf16 ''a b'' @ [0x2028, 0x2D, 0x3000] @ utf16 ''+7px.jpg'')
       = Inr \<lparr>pr_sku = utf16 ''A B'', pr_sortOrder = Num 7\<rparr>"
  by code_simp

text \<open>
  Claim C4, as stated, fails: the sort order is the Number value that \<open>parseInt\<close>
  returns, and nothing in the sources checks it. After the separator of
  \<open>"A-9007199254740993.jpg"\<close> stands the integer \<open>2^53 + 1\<close>, and the sort order
  returned is \<open>2^53\<close>; after the separator of a name with the 310 digits of
  \<open>10^309\<close> the sort order returned is \<open>Infinity\<close>, which is no integer.
\<close>

theorem parseFilename_rounded_counterexample:
  "parseFilename asciiUpperCase (utf16 ''A-9007199254740993.jpg'')
     = Inr \<lparr>pr_sku = utf16 ''A'', pr_sortOrder = Num 9007199254740992\<rparr>
   \<and> parseFilename asciiUpperCase (utf16 (''A-1'' @ replicate 309 CHR ''0'' @ ''.jpg''))
     = Inr \<lparr>pr_sku = utf16 ''A'', pr_sortOrder = PlusInfinity\<rparr>"
  by code_simp

text \<open>
  Claim C4, amended. Whenever \<open>parseFilename\<close> succeeds, the name \<open>n\<close> without its
  extension has a last separator \<open>-\<close> at some position \<open>k\<close> other than 0; the
  returned SKU is the text before position \<open>k\<close>, trimmed, which is not empty, and
  upper-cased; and the returned sort order is the number that \<open>parseInt\<close> reads from
  the text after position \<open>k\<close>, which is not negative. That number is the integer
  denoted by the decimal digits \<open>z\<close> that \<open>parseInt\<close> finds there when this integer
  is below \<open>2^53\<close>, and the double nearest to this integer otherwise, \<open>Infinity\<close>
  included.
\<close>

theorem parseFilename_success:
  assumes "parseFilename toUpperCase fname = Inr r"
  shows "\<exists>n k t z. n = removeExtension fname \<and> withoutExtension fname n
           \<and> 0 < k \<and> isLastIndex 0x2D n k
           \<and> t = trim (take k n) \<and> isTrimOf t (take k n) \<and> t \<noteq> []
           \<and> pr_sku r = toUpperCase t
           \<and> parseInt10 (drop (Suc k) n) = Some (pr_sortOrder r)
           \<and> z = decimalDigits (drop (Suc k) n) \<and> z \<noteq> []
           \<and> \<not> isNegative (pr_sortOrder r)
           \<and> (decimalValue z < 2 ^ 53 \<longrightarrow> pr_sortOrder r = Num (decimalValue z))
           \<and> (2 ^ 53 \<le> decimalValue z
                \<longrightarrow> (\<exists>m e. roundsTo (decimalValue z) m e (pr_sortOrder r)))"
proof -
  let ?n = "removeExtension fname"
  from assms have ne: "lastIndexOf ?n 0x2D \<noteq> -1"
    by (auto simp: parseFilename_def Let_def split: if_splits)
  from lastIndexOf_present [OF ne]
  obtain k where k: "lastIndexOf ?n 0x2D = int k" and last: "isLastIndex 0x2D ?n k"
    by (elim exE conjE)
  from last have kl: "k < length ?n" by (simp add: isLastIndex_def)
  from last have nosign: "0x2D \<notin> set (drop (Suc k) ?n)" by (simp add: isLastIndex_def)
  have pre: "substring ?n 0 (int k) = take k ?n" using kl by (simp add: substring_prefix)
  have suf: "substringFrom ?n (int k + 1) = drop (Suc k) ?n"
    using kl substringFrom_suffix [of "Suc k" ?n] by (simp add: add.commute)
  let ?z = "decimalDigits (drop (Suc k) ?n)"
  from assms k have body:
    "0 < k \<and> trim (take k ?n) \<noteq> [] \<and> pr_sku r = toUpperCase (trim (take k ?n))
     \<and> parseInt10 (trim (drop (Suc k) ?n)) = Some (pr_sortOrder r)
     \<and> \<not> isNegative (pr_sortOrder r)"
    by (auto simp: parseFilename_def Let_def pre suf split: if_splits option.splits)
  then have p: "parseInt10 (drop (Suc k) ?n) = Some (pr_sortOrder r)"
    by (simp add: parseInt10_trim)
  with parseInt10_unsigned [OF nosign]
  have z: "?z \<noteq> []" and v: "pr_sortOrder r = toNumber (decimalValue ?z)"
    by (auto split: if_splits)
  have exact: "decimalValue ?z < 2 ^ 53 \<longrightarrow> pr_sortOrder r = Num (decimalValue ?z)"
    unfolding v by (rule impI) (rule toNumber_exact)
  have rounded: "2 ^ 53 \<le> decimalValue ?z
                  \<longrightarrow> (\<exists>m e. roundsTo (decimalValue ?z) m e (pr_sortOrder r))"
  proof
    assume "2 ^ 53 \<le> decimalValue ?z"
    then have "\<not> decimalValue ?z < 2 ^ 53" by (simp only: not_less)
    then show "\<exists>m e. roundsTo (decimalValue ?z) m e (pr_sortOrder r)"
      unfolding v by (rule toNumber_roundsTo)
  qed
  from body have b1: "0 < k" and b2: "trim (take k ?n) \<noteq> []"
    and b3: "pr_sku r = toUpperCase (trim (take k ?n))"
    and b4: "\<not> isNegative (pr_sortOrder r)" by simp_all
  from refl [of ?n] removeExtension_withoutExtension [of fname] b1 last
    refl [of "trim (take k ?n)"] trim_isTrimOf [of "take k ?n"] b2 b3 p refl [of ?z] z b4
    exact rounded
  show ?thesis by (intro exI conjI)
qed

theorem parseFilename_success_witness:
  "\<exists>k. isLastIndex 0x2D (removeExtension (utf16 ''summer-dress-red-01.jpg'')) k
      \<and> utf16 ''SUMMER-DRESS-RED''
          = asciiUpperCase (trim (take k (removeExtension (utf16 ''summer-dress-red-01.jpg''))))
      \<and> parseInt10 (drop (Suc k) (removeExtension (utf16 ''summer-dress-red-01.jpg'')))
          = Some (Num 1)"
proof -
  have "parseFilename asciiUpperCase (utf16 ''summer-dress-red-01.jpg'')
          = Inr \<lparr>pr_sku = utf16 ''SUMMER-DRESS-RED'', pr_sortOrder = Num 1\<rparr>"
    by code_simp
  from parseFilename_success [OF this] show ?thesis by simp blast
qed

text \<open>
  Claim C3, as stated, fails: in \<open>" -xx.jpg"\<close> the last separator is at position 1 and
  the suffix \<open>xx\<close> is not an integer, yet the prefix is blank and the failure is
  \<open>EmptySku\<close>, which is checked first.
\<close>

theorem parseFilename_blank_prefix_counterexample:
  "isLastIndex 0x2D (removeExtension (utf16 '' -xx.jpg'')) 1
   \<and> parseInt10 (drop 2 (removeExtension (utf16 '' -xx.jpg''))) = None
   \<and> parseFilename asciiUpperCase (utf16 '' -xx.jpg'') = Inl EmptySku"
  by code_simp

text \<open>
  Claim C3, amended. \<open>parseFilename\<close> fails with \<open>InvalidSortNumber\<close> exactly when the
  name without its extension has its last separator \<open>-\<close> at a position \<open>k\<close> other than
  0, the text before the separator is not blank, and \<open>parseInt\<close> reads no integer from
  the text after it; the error then carries that text, trimmed.
\<close>

theorem parseFilename_InvalidSortNumber_iff:
  "(parseFilename toUpperCase fname = Inl (InvalidSortNumber s)) =
   (\<exists>k. 0 < k \<and> isLastIndex 0x2D (removeExtension fname) k
        \<and> trim (take k (removeExtension fname)) \<noteq> []
        \<and> parseInt10 (drop (Suc k) (removeExtension fname)) = None
        \<and> s = trim (drop (Suc k) (removeExtension fname)))"
proof
  let ?n = "removeExtension fname"
  assume a: "parseFilename toUpperCase fname = Inl (InvalidSortNumber s)"
  then have ne: "lastIndexOf ?n 0x2D \<noteq> -1"
    by (auto simp: parseFilename_def Let_def split: if_splits)
  from lastIndexOf_present [OF ne]
  obtain k where k: "lastIndexOf ?n 0x2D = int k" and last: "isLastIndex 0x2D ?n k"
    by (elim exE conjE)
  from last have kl: "k < length ?n" by (simp add: isLastIndex_def)
  have pre: "substring ?n 0 (int k) = take k ?n" using kl by (simp add: substring_prefix)
  have suf: "substringFrom ?n (int k + 1) = drop (Suc k) ?n"
    using kl substringFrom_suffix [of "Suc k" ?n] by (simp add: add.commute)
  from a k have "0 < k \<and> trim (take k ?n) \<noteq> []
      \<and> parseInt10 (trim (drop (Suc k) ?n)) = None \<and> s = trim (drop (Suc k) ?n)"
    by (auto simp: parseFilename_def Let_def pre suf split: if_splits option.splits)
  then have "0 < k \<and> isLastIndex 0x2D ?n k \<and> trim (take k ?n) \<noteq> []
        \<and> parseInt10 (drop (Suc k) ?n) = None \<and> s = trim (drop (Suc k) ?n)"
    using last by (simp add: parseInt10_trim)
  then show "\<exists>k. 0 < k \<and> isLastIndex 0x2D ?n k \<and> trim (take k ?n) \<noteq> []
        \<and> parseInt10 (drop (Suc k) ?n) = None \<and> s = trim (drop (Suc k) ?n)"
    by (rule exI)
next
  let ?n = "removeExtension fname"
  assume "\<exists>k. 0 < k \<and> isLastIndex 0x2D ?n k \<and> trim (take k ?n) \<noteq> []
        \<and> parseInt10 (drop (Suc k) ?n) = None \<and> s = trim (drop (Suc k) ?n)"
  then obtain k where pos: "0 < k" and last: "isLastIndex 0x2D ?n k"
    and sku: "trim (take k ?n) \<noteq> []" and nan: "parseInt10 (drop (Suc k) ?n) = None"
    and s: "s = trim (drop (Suc k) ?n)" by (elim exE conjE)
  from last have k: "lastIndexOf ?n 0x2D = int k" by (rule lastIndexOf_isLastIndex)
  from last have kl: "k < length ?n" by (simp add: isLastIndex_def)
  have pre: "substring ?n 0 (int k) = take k ?n" using kl by (simp add: substring_prefix)
  have suf: "substringFrom ?n (int k + 1) = drop (Suc k) ?n"
    using kl substringFrom_suffix [of "Suc k" ?n] by (simp add: add.commute)
  from nan have nan': "parseInt10 (trim (drop (Suc k) ?n)) = None" by (simp add: parseInt10_trim)
  show "parseFilename toUpperCase fname = Inl (InvalidSortNumber s)"
    using pos sku nan' s by (simp add: parseFilename_def Let_def k pre suf)
qed

theorem parseFilename_InvalidSortNumber_witness:
  "parseFilename asciiUpperCase (utf16 ''ABC-xx.jpg'') = Inl (InvalidSortNumber (utf16 ''xx''))
   \<and> (\<exists>k. 0 < k \<and> isLastIndex 0x2D (removeExtension (utf16 ''ABC-xx.jpg'')) k
        \<and> trim (take k (removeExtension (utf16 ''ABC-xx.jpg''))) \<noteq> []
        \<and> parseInt10 (drop (Suc k) (removeExtension (utf16 ''ABC-xx.jpg''))) = None
        \<and> utf16 ''xx'' = trim (drop (Suc k) (removeExtension (utf16 ''ABC-xx.jpg''))))"
proof -
  have "parseFilename asciiUpperCase (utf16 ''ABC-xx.jpg'')
          = Inl (InvalidSortNumber (utf16 ''xx''))" by code_simp
  then show ?thesis
    using parseFilename_InvalidSortNumber_iff
            [of asciiUpperCase "utf16 ''ABC-xx.jpg''" "utf16 ''xx''"] by blast
qed

section \<open>Properties of the route action\<close>

lemma status_partition:
  "length rs = countStatus Success rs + countStatus Error rs
               + countStatus Skipped rs + countStatus DryRun rs"
proof (induction rs)
  case Nil
  then show ?case by (simp add: countStatus_def)
next
  case (Cons r rs)
  then show ?case by (cases "status r") (simp_all add: countStatus_def)
qed

lemma length_attachBlobs: "length (attachBlobs metas blobs) = length metas"
  by (induction metas arbitrary: blobs) simp_all

lemma none_valid_all_invalid:
  "filter P xs = [] \<Longrightarrow> length (filter (\<lambda>x. \<not> P x) xs) = length xs"
  by (induction xs) (auto split: if_splits)

text \<open>
  Claim C1, as stated, fails for the empty list of files: the action returns
  \<open>success: false\<close> by its guard on \<open>validFiles.length === 0\<close>, and the failed
  count is 0.
\<close>

theorem action_empty_list_counterexample:
  "\<not> success (fst (action sampleAdmin (sampleRequest True Append []) emptyWorld))
   \<and> failed (summary (fst (action sampleAdmin (sampleRequest True Append []) emptyWorld))) = 0"
  by code_simp

text \<open>
  Claim C1, amended. The success flag is true if and only if the failed count is 0 and
  the list of input files is not empty. So for every run on a non-empty list the flag
  is true exactly when no result failed, and a run on the empty list has the flag false.
\<close>

theorem action_success:
  "success (fst (action admin request w))
   = (failed (summary (fst (action admin request w))) = 0
      \<and> filesDataField request \<noteq> Some [])"
proof (cases "actionTry admin request w")
  case (Inl e)
  then show ?thesis by (simp add: action_def)
next
  case (Inr out)
  then obtain settings metas where s: "settingsField request = Some settings"
    and m: "filesDataField request = Some metas"
    by (auto simp: actionTry_def split: option.splits)
  let ?parsed = "attachBlobs metas (fileBlobs request)"
  show ?thesis
  proof (cases "filter isValid ?parsed = []")
    case True
    then have "length (filter (\<lambda>f. \<not> isValid f) ?parsed) = length metas"
      by (simp add: none_valid_all_invalid length_attachBlobs)
    with True s m show ?thesis
      by (simp add: action_def actionTry_def Let_def)
  next
    case False
    then have "metas \<noteq> []" by auto
    with False s m Inr show ?thesis
      by (auto simp: action_def actionTry_def Let_def split: sum.splits prod.splits)
  qed
qed

theorem action_success_witness:
  "success (fst (action sampleAdmin (sampleRequest True Append [sampleMeta ''A'' 1 True]) emptyWorld))"
proof -
  have "failed (summary (fst (action sampleAdmin
            (sampleRequest True Append [sampleMeta ''A'' 1 True]) emptyWorld))) = 0
        \<and> filesDataField (sampleRequest True Append [sampleMeta ''A'' 1 True]) \<noteq> Some []"
    by code_simp
  then show ?thesis
    using action_success [of sampleAdmin "sampleRequest True Append [sampleMeta ''A'' 1 True]" emptyWorld]
    by simp
qed

lemma groupLoop_throws:
  "(\<exists>e. groupLoop files g = Inl e)
   = (\<exists>f \<in> set files. isValid f \<and> inheritedProperty (ParsedFile.sku f))"
  by (induction files arbitrary: g) auto

lemma groupFilesBySku_throws:
  "(\<exists>e. groupFilesBySku files = Inl e)
   = (\<exists>f \<in> set files. isValid f \<and> inheritedProperty (ParsedFile.sku f))"
proof -
  have "(\<exists>e. groupFilesBySku files = Inl e) = (\<exists>e. groupLoop files [] = Inl e)"
    by (auto simp: groupFilesBySku_def split: sum.splits)
  then show ?thesis by (simp add: groupLoop_throws)
qed

lemma attachBlobs_valid:
  "list_ex isValid (attachBlobs metas blobs) = list_ex isValid metas"
  by (induction metas arbitrary: blobs) simp_all

lemma attachBlobs_inherited:
  "list_ex (\<lambda>f. isValid f \<and> inheritedProperty (ParsedFile.sku f)) (attachBlobs metas blobs)
   = list_ex (\<lambda>m. isValid m \<and> inheritedProperty (ParsedFile.sku m)) metas"
  by (induction metas arbitrary: blobs) simp_all

lemma countStatus_invalid:
  "countStatus st (map (\<lambda>f. \<lparr>filename = a f, detectedSku = b f, productFound = False,
       productTitle = None, productId = None, status = Error, errorDetails = c f\<rparr>) xs)
   = (if st = Error then length xs else 0)"
  by (induction xs) (auto simp: countStatus_def)

lemma generateSummary_counts:
  "total (generateSummary rs) = length rs
   \<and> successful (generateSummary rs) = countStatus Success rs
   \<and> failed (generateSummary rs) = countStatus Error rs
   \<and> skipped (generateSummary rs) = countStatus Skipped rs
   \<and> Summary.dryRun (generateSummary rs) = Some (countStatus DryRun rs)"
  by (simp add: generateSummary_def countStatus_def)

lemma action_outcomes:
  "(\<not> reachesQueue request \<and>
      (\<exists>rs. results (fst (action admin request w)) = rs
          \<and> summary (fst (action admin request w))
             = \<lparr>total = length rs, successful = 0, failed = length rs, skipped = 0,
                Summary.dryRun = None\<rparr>
          \<and> countStatus Error rs = length rs))
   \<or> (reachesQueue request \<and>
        summary (fst (action admin request w))
          = generateSummary (results (fst (action admin request w))))"
proof (cases "actionTry admin request w")
  case (Inl e)
  have nq: "\<not> reachesQueue request"
  proof
    assume q: "reachesQueue request"
    then obtain settings metas where s: "settingsField request = Some settings"
      and m: "filesDataField request = Some metas"
      and v: "list_ex isValid metas"
      and ni: "\<not> list_ex (\<lambda>m. isValid m \<and> inheritedProperty (ParsedFile.sku m)) metas"
      by (auto simp: reachesQueue_def split: option.splits)
    let ?parsed = "attachBlobs metas (fileBlobs request)"
    from v have v': "filter isValid ?parsed \<noteq> []"
      using attachBlobs_valid [of metas "fileBlobs request"]
      by (auto simp: list_ex_iff filter_empty_conv)
    from ni have "\<not> (\<exists>f \<in> set (filter isValid ?parsed). isValid f \<and> inheritedProperty (ParsedFile.sku f))"
      using attachBlobs_inherited [of metas "fileBlobs request"]
      by (auto simp: list_ex_iff)
    then have "\<not> (\<exists>e. groupFilesBySku (filter isValid ?parsed) = Inl e)"
      using groupFilesBySku_throws by blast
    then obtain g where "groupFilesBySku (filter isValid ?parsed) = Inr g"
      by (cases "groupFilesBySku (filter isValid ?parsed)") auto
    with s m v' Inl show False
      by (auto simp: actionTry_def Let_def split: prod.splits)
  qed
  with Inl show ?thesis by (simp add: action_def countStatus_def)
next
  case (Inr out)
  then obtain settings metas where s: "settingsField request = Some settings"
    and m: "filesDataField request = Some metas"
    by (auto simp: actionTry_def split: option.splits)
  let ?parsed = "attachBlobs metas (fileBlobs request)"
  show ?thesis
  proof (cases "filter isValid ?parsed = []")
    case True
    then have "\<not> list_ex isValid ?parsed" by (auto simp: list_ex_iff filter_empty_conv)
    then have "\<not> list_ex isValid metas" by (simp add: attachBlobs_valid)
    with s m have nq: "\<not> reachesQueue request" by (simp add: reachesQueue_def)
    from True s m nq show ?thesis
      by (simp add: action_def actionTry_def Let_def countStatus_invalid)
  next
    case False
    then have "list_ex isValid ?parsed" by (auto simp: list_ex_iff filter_empty_conv)
    then have v: "list_ex isValid metas" by (simp add: attachBlobs_valid)
    from False s m Inr obtain g where g: "groupFilesBySku (filter isValid ?parsed) = Inr g"
      by (auto simp: actionTry_def Let_def split: sum.splits)
    then have "\<not> (\<exists>e. groupFilesBySku (filter isValid ?parsed) = Inl e)" by simp
    then have "\<not> (\<exists>f \<in> set (filter isValid ?parsed). isValid f \<and> inheritedProperty (ParsedFile.sku f))"
      using groupFilesBySku_throws by blast
    then have "\<not> list_ex (\<lambda>f. isValid f \<and> inheritedProperty (ParsedFile.sku f)) ?parsed"
      by (auto simp: list_ex_iff)
    then have "\<not> list_ex (\<lambda>m. isValid m \<and> inheritedProperty (ParsedFile.sku m)) metas"
      by (simp add: attachBlobs_inherited)
    with v s m have q: "reachesQueue request" by (simp add: reachesQueue_def)
    from False s m g q show ?thesis
      by (auto simp: action_def actionTry_def Let_def split: prod.splits)
  qed
qed

text \<open>
  Claim C2, as stated, fails when no file is valid (and when the action catches an
  error): the summary is then built in place, without a \<open>dryRun\<close> field, so the
  claimed sum has no fifth addend to read.
\<close>

theorem action_summary_counterexample:
  "Summary.dryRun (summary (fst (action sampleAdmin
      (sampleRequest True Append [sampleMeta ''A'' 1 False]) emptyWorld))) = None
   \<and> total (summary (fst (action sampleAdmin
      (sampleRequest True Append [sampleMeta ''A'' 1 False]) emptyWorld))) = 1"
  by code_simp

text \<open>
  Claim C2, amended. For every run, \<open>total\<close> is the number of results and equals
  \<open>successful + failed + skipped\<close> plus the \<open>dryRun\<close> count, read as 0 when the field
  is absent; each addend is the number of results with status success, error, skipped
  and dry-run. The summary has its \<open>dryRun\<close> field exactly when the run reaches the
  upload queue.
\<close>

theorem action_summary:
  "total (summary (fst (action admin request w)))
     = successful (summary (fst (action admin request w)))
       + failed (summary (fst (action admin request w)))
       + skipped (summary (fst (action admin request w)))
       + dryRunOrZero (summary (fst (action admin request w)))
   \<and> total (summary (fst (action admin request w)))
       = length (results (fst (action admin request w)))
   \<and> successful (summary (fst (action admin request w)))
       = countStatus Success (results (fst (action admin request w)))
   \<and> failed (summary (fst (action admin request w)))
       = countStatus Error (results (fst (action admin request w)))
   \<and> skipped (summary (fst (action admin request w)))
       = countStatus Skipped (results (fst (action admin request w)))
   \<and> dryRunOrZero (summary (fst (action admin request w)))
       = countStatus DryRun (results (fst (action admin request w)))
   \<and> (Summary.dryRun (summary (fst (action admin request w))) \<noteq> None)
       = reachesQueue request"
proof -
  let ?r = "fst (action admin request w)"
  from action_outcomes [of request admin w] show ?thesis
  proof
    assume a: "\<not> reachesQueue request \<and>
      (\<exists>rs. results ?r = rs
          \<and> summary ?r = \<lparr>total = length rs, successful = 0, failed = length rs, skipped = 0,
                Summary.dryRun = None\<rparr>
          \<and> countStatus Error rs = length rs)"
    then have e: "countStatus Error (results ?r) = length (results ?r)" by simp
    have "length (results ?r) = countStatus Success (results ?r) + countStatus Error (results ?r)
               + countStatus Skipped (results ?r) + countStatus DryRun (results ?r)"
      by (rule status_partition)
    with e have z: "countStatus Success (results ?r) = 0 \<and> countStatus Skipped (results ?r) = 0
       \<and> countStatus DryRun (results ?r) = 0" by arith
    from a z e show ?thesis by (simp add: dryRunOrZero_def)
  next
    assume a: "reachesQueue request \<and> summary ?r = generateSummary (results ?r)"
    have "length (results ?r) = countStatus Success (results ?r) + countStatus Error (results ?r)
               + countStatus Skipped (results ?r) + countStatus DryRun (results ?r)"
      by (rule status_partition)
    moreover note generateSummary_counts [of "results ?r"]
    ultimately show ?thesis using a by (simp add: dryRunOrZero_def)
  qed
qed

theorem action_summary_witness:
  "reachesQueue (sampleRequest True Append [sampleMeta ''A'' 1 True, sampleMeta ''B'' 1 True])
   \<and> Summary.dryRun (summary (fst (action sampleAdmin
        (sampleRequest True Append [sampleMeta ''A'' 1 True, sampleMeta ''B'' 1 True])
        emptyWorld))) \<noteq> None
   \<and> total (summary (fst (action sampleAdmin
        (sampleRequest True Append [sampleMeta ''A'' 1 True, sampleMeta ''B'' 1 True])
        emptyWorld))) = 2"
proof -
  have q: "reachesQueue (sampleRequest True Append [sampleMeta ''A'' 1 True, sampleMeta ''B'' 1 True])"
    by code_simp
  have l: "length (results (fst (action sampleAdmin
        (sampleRequest True Append [sampleMeta ''A'' 1 True, sampleMeta ''B'' 1 True])
        emptyWorld))) = 2"
    by code_simp
  from q l show ?thesis
    using action_summary [of sampleAdmin
        "sampleRequest True Append [sampleMeta ''A'' 1 True, sampleMeta ''B'' 1 True]" emptyWorld]
    by simp
qed

section \<open>Properties of the upload queue\<close>

lemma processOneUpload_calls:
  "\<exists>new. calls (snd (processOneUpload admin file product settings w)) = calls w @ new
      \<and> list_all isUploadStep new"
  by (auto simp: processOneUpload_def Let_def issue_def split: sum.splits)

lemma processOneUpload_registers:
  "seoOptimization settings \<Longrightarrow>
   \<exists>new. calls (snd (processOneUpload admin file product settings w)) = calls w @ new
      \<and> (registeredAltTexts new = [] \<or>
           registeredAltTexts new = [Some (altTextWhenNonEmpty settings product file)])
      \<and> (status (fst (processOneUpload admin file product settings w)) = Success
            \<longrightarrow> registeredAltTexts new = [Some (altTextWhenNonEmpty settings product file)])"
  by (auto simp: processOneUpload_def Let_def issue_def altTextWhenNonEmpty_def defaultSuffix_def
      split: sum.splits option.splits)

lemma newCalls_append: "calls after = calls before @ new \<Longrightarrow> newCalls before after = new"
  by (simp add: newCalls_def)

text \<open>
  Claim C6, as stated, fails when the position has an entry whose text is empty: the
  operator \<open>||\<close> then falls back to the default, so the registration step gets
  \<open>Shirt - View 01\<close> where the claim expects \<open>Shirt - \<close> followed by the empty text.
\<close>

theorem processOneUpload_empty_text_counterexample:
  "seoOptimization (sampleSettings False Append)
   \<and> altTextWhenPresent (sampleSettings False Append) sampleProduct (sampleFile ''A'' 1)
       = ''Shirt - ''
   \<and> registeredAltTexts (newCalls emptyWorld
        (snd (processOneUpload sampleAdmin (sampleFile ''A'' 1) sampleProduct
               (sampleSettings False Append) emptyWorld)))
     = [Some ''Shirt - View 01'']"
  by code_simp

text \<open>
  Claim C6, amended. In an upload task with \<open>seoOptimization = true\<close>, the alt text
  passed to the registration step is the product title, \<open>" - "\<close>, and then the text
  of \<open>altTextByPosition\<close> at the file's sort order when that entry is present and not
  empty, otherwise \<open>"View "\<close> followed by the sort order padded with zeros to width 2.
  The task registers at most once, and it does register whenever it ends in success.
\<close>

theorem processOneUpload_altText:
  assumes "seoOptimization settings"
  shows "(registeredAltTexts (newCalls w (snd (processOneUpload admin file product settings w))) = []
          \<or> registeredAltTexts (newCalls w (snd (processOneUpload admin file product settings w)))
             = [Some (altTextWhenNonEmpty settings product file)])
       \<and> (status (fst (processOneUpload admin file product settings w)) = Success \<longrightarrow>
            registeredAltTexts (newCalls w (snd (processOneUpload admin file product settings w)))
            = [Some (altTextWhenNonEmpty settings product file)])"
proof -
  obtain new where c: "calls (snd (processOneUpload admin file product settings w)) = calls w @ new"
    and r: "registeredAltTexts new = [] \<or>
            registeredAltTexts new = [Some (altTextWhenNonEmpty settings product file)]"
    and ok: "status (fst (processOneUpload admin file product settings w)) = Success
              \<longrightarrow> registeredAltTexts new = [Some (altTextWhenNonEmpty settings product file)]"
    using processOneUpload_registers [OF assms, of admin "file" product w] by blast
  from c have "newCalls w (snd (processOneUpload admin file product settings w)) = new"
    by (rule newCalls_append)
  with r ok show ?thesis by simp
qed

theorem processOneUpload_altText_witness:
  "seoOptimization (sampleSettings False Append)
   \<and> registeredAltTexts (newCalls emptyWorld
        (snd (processOneUpload sampleAdmin (sampleFile ''A'' 2) sampleProduct
               (sampleSettings False Append) emptyWorld)))
     = [Some ''Shirt - Back'']"
proof -
  have s: "seoOptimization (sampleSettings False Append)" by code_simp
  have ok: "status (fst (processOneUpload sampleAdmin (sampleFile ''A'' 2) sampleProduct
               (sampleSettings False Append) emptyWorld)) = Success"
    by code_simp
  have t: "altTextWhenNonEmpty (sampleSettings False Append) sampleProduct (sampleFile ''A'' 2)
           = ''Shirt - Back''"
    by code_simp
  from processOneUpload_altText [OF s, of emptyWorld sampleAdmin "sampleFile ''A'' 2" sampleProduct]
    ok t s show ?thesis by simp
qed

lemma processOneUpload_other_delete:
  "processOneUpload (admin\<lparr>deleteProductMedia := d\<rparr>) f product settings w
   = processOneUpload admin f product settings w"
  by (simp add: processOneUpload_def Let_def split: sum.splits)

lemma processOneUpload_same_calls:
  assumes "calls w = calls v"
  shows "fst (processOneUpload admin f product settings w)
           = fst (processOneUpload admin f product settings v)
         \<and> calls (snd (processOneUpload admin f product settings w))
           = calls (snd (processOneUpload admin f product settings v))"
  using assms
  by (auto simp: processOneUpload_def Let_def issue_def split: sum.splits)

lemma uploadAll_other_delete:
  "uploadAll (admin\<lparr>deleteProductMedia := d\<rparr>) fs product settings w
   = uploadAll admin fs product settings w"
  by (induction fs arbitrary: w) (simp_all add: processOneUpload_other_delete)

lemma uploadAll_same_calls:
  "calls w = calls v \<Longrightarrow>
   fst (uploadAll admin fs product settings w) = fst (uploadAll admin fs product settings v)
   \<and> calls (snd (uploadAll admin fs product settings w))
     = calls (snd (uploadAll admin fs product settings v))"
proof (induction fs arbitrary: w v)
  case Nil
  then show ?case by simp
next
  case (Cons f fs)
  let ?a = "processOneUpload admin f product settings w"
  let ?b = "processOneUpload admin f product settings v"
  from Cons.prems have one: "fst ?a = fst ?b \<and> calls (snd ?a) = calls (snd ?b)"
    by (rule processOneUpload_same_calls)
  then have "calls (snd ?a) = calls (snd ?b)" by simp
  from Cons.IH [OF this] one show ?case
    by (simp add: split_beta Let_def)
qed

lemma uploadAll_calls:
  "\<exists>new. calls (snd (uploadAll admin fs product settings w)) = calls w @ new
      \<and> list_all isUploadStep new"
proof (induction fs arbitrary: w)
  case Nil
  then show ?case by simp
next
  case (Cons f fs)
  let ?w1 = "snd (processOneUpload admin f product settings w)"
  obtain n1 where n1: "calls ?w1 = calls w @ n1" "list_all isUploadStep n1"
    using processOneUpload_calls [of admin f product settings w] by blast
  obtain n2 where n2: "calls (snd (uploadAll admin fs product settings ?w1)) = calls ?w1 @ n2"
    "list_all isUploadStep n2"
    using Cons.IH [of ?w1] by blast
  have "calls (snd (uploadAll admin (f # fs) product settings w)) = calls w @ (n1 @ n2)"
    using n1 n2 by (simp add: split_beta Let_def)
  moreover have "list_all isUploadStep (n1 @ n2)" using n1 n2 by simp
  ultimately show ?case by blast
qed

text \<open>
  Claim C7. For a SKU group processed with the strategy \<open>replace\<close> and a product that
  has existing media, the calls of the group begin with one \<open>deleteProductMedia\<close> call
  for all the existing media, and every later call of the group is a step of an upload
  task; and the results of the files are the same whatever the delete call answers
  (\<open>d\<close> is any other behaviour of the delete call).
\<close>

theorem processProductFiles_replace:
  assumes "uploadStrategy settings = Replace" and "mediaIds product \<noteq> []"
  shows "(\<exists>uploads.
            newCalls w (snd (processProductFiles admin fs product settings w))
              = DeleteProductMedia (id' product) (mediaIds product) # uploads
            \<and> list_all isUploadStep uploads)
         \<and> fst (processProductFiles (admin\<lparr>deleteProductMedia := d\<rparr>) fs product settings w)
             = fst (processProductFiles admin fs product settings w)"
proof -
  let ?del = "DeleteProductMedia (id' product) (mediaIds product)"
  let ?sorted = "sort_key sortOrder fs"
  let ?w1 = "issue ?del w"
  have w1: "\<And>a. \<exists>v. calls v = calls ?w1 \<and>
      processProductFiles a fs product settings w
        = (fst (uploadAll a ?sorted product settings v), snd (uploadAll a ?sorted product settings v))"
  proof -
    fix a
    show "\<exists>v. calls v = calls ?w1 \<and>
      processProductFiles a fs product settings w
        = (fst (uploadAll a ?sorted product settings v), snd (uploadAll a ?sorted product settings v))"
    proof (cases "deleteProductMedia a (calls w) (id' product) (mediaIds product)")
      case (Inl e)
      let ?v = "consoleError (''Failed to delete existing media for '' @ id' product @ '':'') ?w1"
      have "calls ?v = calls ?w1" by (simp add: consoleError_def)
      moreover have "processProductFiles a fs product settings w
        = (fst (uploadAll a ?sorted product settings ?v), snd (uploadAll a ?sorted product settings ?v))"
        using assms Inl by (simp add: processProductFiles_def Let_def split_beta)
      ultimately show ?thesis by blast
    next
      case (Inr u)
      have "processProductFiles a fs product settings w
        = (fst (uploadAll a ?sorted product settings ?w1), snd (uploadAll a ?sorted product settings ?w1))"
        using assms Inr by (simp add: processProductFiles_def Let_def split_beta)
      then show ?thesis by blast
    qed
  qed
  obtain v where v: "calls v = calls ?w1"
    and pv: "processProductFiles admin fs product settings w
        = (fst (uploadAll admin ?sorted product settings v),
           snd (uploadAll admin ?sorted product settings v))"
    using w1 [of admin] by blast
  obtain v' where v': "calls v' = calls ?w1"
    and pv': "processProductFiles (admin\<lparr>deleteProductMedia := d\<rparr>) fs product settings w
        = (fst (uploadAll (admin\<lparr>deleteProductMedia := d\<rparr>) ?sorted product settings v'),
           snd (uploadAll (admin\<lparr>deleteProductMedia := d\<rparr>) ?sorted product settings v'))"
    using w1 [of "admin\<lparr>deleteProductMedia := d\<rparr>"] by blast
  obtain new where new: "calls (snd (uploadAll admin ?sorted product settings v)) = calls v @ new"
    "list_all isUploadStep new"
    using uploadAll_calls [of admin ?sorted product settings v] by blast
  have "calls (snd (processProductFiles admin fs product settings w)) = calls w @ (?del # new)"
    using pv new v by (simp add: issue_def)
  then have "newCalls w (snd (processProductFiles admin fs product settings w)) = ?del # new"
    by (rule newCalls_append)
  with new have first: "\<exists>uploads.
            newCalls w (snd (processProductFiles admin fs product settings w)) = ?del # uploads
            \<and> list_all isUploadStep uploads" by blast
  from v v' have "calls v' = calls v" by simp
  then have "fst (uploadAll admin ?sorted product settings v')
             = fst (uploadAll admin ?sorted product settings v)"
    using uploadAll_same_calls by blast
  with pv pv' have "fst (processProductFiles (admin\<lparr>deleteProductMedia := d\<rparr>) fs product settings w)
             = fst (processProductFiles admin fs product settings w)"
    by (simp add: uploadAll_other_delete)
  with first show ?thesis by blast
qed

theorem processProductFiles_replace_witness:
  "uploadStrategy (sampleSettings False Replace) = Replace
   \<and> mediaIds sampleProduct \<noteq> []
   \<and> (\<exists>uploads.
         newCalls emptyWorld
           (snd (processProductFiles sampleAdmin [sampleFile ''A'' 2, sampleFile ''A'' 1]
                   sampleProduct (sampleSettings False Replace) emptyWorld))
           = DeleteProductMedia (id' sampleProduct) (mediaIds sampleProduct) # uploads
         \<and> list_all isUploadStep uploads)
   \<and> fst (processProductFiles (sampleAdmin\<lparr>deleteProductMedia := (\<lambda>log p ms. Inr ())\<rparr>)
             [sampleFile ''A'' 2, sampleFile ''A'' 1] sampleProduct
             (sampleSettings False Replace) emptyWorld)
       = fst (processProductFiles sampleAdmin [sampleFile ''A'' 2, sampleFile ''A'' 1]
                sampleProduct (sampleSettings False Replace) emptyWorld)"
proof -
  have s: "uploadStrategy (sampleSettings False Replace) = Replace" by code_simp
  have m: "mediaIds sampleProduct \<noteq> []" by code_simp
  from processProductFiles_replace [OF s m] s m show ?thesis by blast
qed

lemma queueLoop_dryRun:
  "UploadSettings.dryRun settings \<Longrightarrow>
   queueLoop admin entries productMap settings acc w
   = (acc @ concat (map (withoutUpload productMap) entries), w)"
proof (induction entries arbitrary: acc)
  case Nil
  then show ?case by simp
next
  case (Cons entry entries)
  obtain key fs where e: "entry = (key, fs)" by (cases entry)
  show ?case
  proof (cases "productMap key")
    case None
    with Cons e show ?thesis by (simp add: withoutUpload_def skippedResult_def)
  next
    case (Some product)
    with Cons e show ?thesis by (simp add: withoutUpload_def dryRunResult_def)
  qed
qed

lemma set_objectEntries: "set (objectEntries obj) = set obj"
proof -
  have "set (objectEntries obj)
        = set (filter (\<lambda>(k, v). isArrayIndex k) obj) \<union> set (filter (\<lambda>(k, v). \<not> isArrayIndex k) obj)"
    by (simp add: objectEntries_def)
  also have "\<dots> = set obj" by auto
  finally show ?thesis .
qed

lemma withoutUpload_mem:
  "f \<in> set fs \<Longrightarrow> productMap key = Some product \<Longrightarrow>
   dryRunResult product f \<in> set (withoutUpload productMap (key, fs))"
  by (simp add: withoutUpload_def image_iff) blast

lemma queryProductsLoop_calls:
  "calls (snd (queryProductsLoop admin ks pm w)) = calls w"
proof (induction ks arbitrary: pm w)
  case Nil
  then show ?case by simp
next
  case (Cons k ks)
  show ?case
  proof (cases "queryProductBySKU admin k")
    case (Inl e)
    with Cons show ?thesis by (simp add: consoleError_def)
  next
    case (Inr found)
    with Cons show ?thesis by (cases found) simp_all
  qed
qed

lemma processUploadQueue_dryRun_world:
  "UploadSettings.dryRun settings \<Longrightarrow>
   snd (processUploadQueue admin groupedFiles productMap settings w) = w"
  by (simp add: processUploadQueue_def queueLoop_dryRun)

lemma action_dryRun_calls:
  assumes s: "settingsField request = Some settings" and d: "UploadSettings.dryRun settings"
  shows "calls (snd (action admin request w)) = calls w"
proof (cases "actionTry admin request w")
  case (Inl e)
  then show ?thesis by (simp add: action_def consoleError_def)
next
  case (Inr out)
  with s obtain metas where m: "filesDataField request = Some metas"
    by (auto simp: actionTry_def split: option.splits)
  let ?valid = "filter isValid (attachBlobs metas (fileBlobs request))"
  show ?thesis
  proof (cases "?valid = []")
    case True
    with s m show ?thesis by (simp add: action_def actionTry_def Let_def)
  next
    case False
    with s m Inr obtain g where g: "groupFilesBySku ?valid = Inr g"
      by (auto simp: actionTry_def Let_def split: sum.splits)
    let ?q = "queryProductsBySKUs admin (getUniqueSKUs ?valid) w"
    have "snd (action admin request w)
          = snd (processUploadQueue admin g (fst ?q) settings (snd ?q))"
      using s m False g by (simp add: action_def actionTry_def Let_def split_beta)
    also have "\<dots> = snd ?q" using d by (rule processUploadQueue_dryRun_world)
    finally show ?thesis by (simp add: queryProductsBySKUs_def queryProductsLoop_calls)
  qed
qed

text \<open>
  Claim C8. With \<open>dryRun = true\<close>, for any strategy, the queue leaves the world as it
  was (no call is issued), its results are those of \<open>withoutUpload\<close> group by group,
  and every file of a group whose SKU resolves to a product yields the dry-run result
  with \<open>productFound = true\<close> and the product's title and id. A whole run of the
  action with such settings adds no call to the log either.
\<close>

theorem processUploadQueue_dryRun:
  assumes "UploadSettings.dryRun settings"
  shows "snd (processUploadQueue admin groupedFiles productMap settings w) = w
       \<and> fst (processUploadQueue admin groupedFiles productMap settings w)
         = concat (map (withoutUpload productMap) (objectEntries groupedFiles))
       \<and> (\<forall>key fs f product.
            (key, fs) \<in> set groupedFiles \<and> f \<in> set fs \<and> productMap key = Some product
            \<longrightarrow> dryRunResult product f
                  \<in> set (fst (processUploadQueue admin groupedFiles productMap settings w)))
       \<and> (settingsField request = Some settings
            \<longrightarrow> calls (snd (action admin request w)) = calls w)"
proof -
  have q: "processUploadQueue admin groupedFiles productMap settings w
           = (concat (map (withoutUpload productMap) (objectEntries groupedFiles)), w)"
    using queueLoop_dryRun [OF assms, of admin "objectEntries groupedFiles" productMap "[]" w]
    by (simp add: processUploadQueue_def)
  have mem: "dryRunResult product f
               \<in> set (concat (map (withoutUpload productMap) (objectEntries groupedFiles)))"
    if a: "(key, fs) \<in> set groupedFiles" and b: "f \<in> set fs"
      and c: "productMap key = Some product" for key fs f product
  proof -
    from a have "(key, fs) \<in> set (objectEntries groupedFiles)" by (simp add: set_objectEntries)
    moreover from b c have "dryRunResult product f \<in> set (withoutUpload productMap (key, fs))"
      by (rule withoutUpload_mem)
    ultimately show ?thesis unfolding set_concat set_map by blast
  qed
  have "\<forall>key fs f product.
            (key, fs) \<in> set groupedFiles \<and> f \<in> set fs \<and> productMap key = Some product
            \<longrightarrow> dryRunResult product f
                  \<in> set (concat (map (withoutUpload productMap) (objectEntries groupedFiles)))"
    using mem by blast
  moreover have "settingsField request = Some settings
            \<longrightarrow> calls (snd (action admin request w)) = calls w"
    using assms action_dryRun_calls by blast
  ultimately show ?thesis unfolding q fst_conv snd_conv by blast
qed

theorem processUploadQueue_dryRun_witness:
  "UploadSettings.dryRun (sampleSettings True Replace)
   \<and> snd (processUploadQueue sampleAdmin [(''A'', [sampleFile ''A'' 1]), (''B'', [sampleFile ''B'' 1])]
            [''A'' \<mapsto> sampleProduct] (sampleSettings True Replace) emptyWorld) = emptyWorld
   \<and> dryRunResult sampleProduct (sampleFile ''A'' 1)
       \<in> set (fst (processUploadQueue sampleAdmin
                 [(''A'', [sampleFile ''A'' 1]), (''B'', [sampleFile ''B'' 1])]
                 [''A'' \<mapsto> sampleProduct] (sampleSettings True Replace) emptyWorld))
   \<and> calls (snd (action sampleAdmin
                (sampleRequest True Replace [sampleMeta ''A'' 1 True, sampleMeta ''B'' 1 True])
                emptyWorld)) = calls emptyWorld"
proof -
  have s: "UploadSettings.dryRun (sampleSettings True Replace)" by code_simp
  have r: "settingsField (sampleRequest True Replace [sampleMeta ''A'' 1 True, sampleMeta ''B'' 1 True])
           = Some (sampleSettings True Replace)"
    by (simp add: sampleRequest_def)
  from processUploadQueue_dryRun [OF s, of sampleAdmin
      "[(''A'', [sampleFile ''A'' 1]), (''B'', [sampleFile ''B'' 1])]"
      "[''A'' \<mapsto> sampleProduct]" emptyWorld
      "sampleRequest True Replace [sampleMeta ''A'' 1 True, sampleMeta ''B'' 1 True]"]
  have w: "snd (processUploadQueue sampleAdmin [(''A'', [sampleFile ''A'' 1]), (''B'', [sampleFile ''B'' 1])]
            [''A'' \<mapsto> sampleProduct] (sampleSettings True Replace) emptyWorld) = emptyWorld"
    and m: "\<forall>key fs f product.
            (key, fs) \<in> set [(''A'', [sampleFile ''A'' 1]), (''B'', [sampleFile ''B'' 1])]
            \<and> f \<in> set fs \<and> [''A'' \<mapsto> sampleProduct] key = Some product
            \<longrightarrow> dryRunResult product f
                  \<in> set (fst (processUploadQueue sampleAdmin
                 [(''A'', [sampleFile ''A'' 1]), (''B'', [sampleFile ''B'' 1])]
                 [''A'' \<mapsto> sampleProduct] (sampleSettings True Replace) emptyWorld))"
    and c: "settingsField (sampleRequest True Replace [sampleMeta ''A'' 1 True, sampleMeta ''B'' 1 True])
              = Some (sampleSettings True Replace)
            \<longrightarrow> calls (snd (action sampleAdmin
                (sampleRequest True Replace [sampleMeta ''A'' 1 True, sampleMeta ''B'' 1 True])
                emptyWorld)) = calls emptyWorld"
    by blast+
  from m have "dryRunResult sampleProduct (sampleFile ''A'' 1)
       \<in> set (fst (processUploadQueue sampleAdmin
                 [(''A'', [sampleFile ''A'' 1]), (''B'', [sampleFile ''B'' 1])]
                 [''A'' \<mapsto> sampleProduct] (sampleSettings True Replace) emptyWorld))"
    by (elim allE [where x = "''A''"] allE [where x = "[sampleFile ''A'' 1]"]
        allE [where x = "sampleFile ''A'' 1"] allE [where x = sampleProduct]) simp
  with w c r s show ?thesis by blast
qed

section \<open>Properties of the pattern analyzer\<close>

lemma pushTo_keys: "fst ` set (pushTo k x obj) = insert k (fst ` set obj)"
proof (cases "map_of obj k")
  case None
  then show ?thesis by (simp add: pushTo_def)
next
  case (Some xs)
  then have "k \<in> fst ` set obj" by (metis map_of_eq_None_iff option.distinct(1))
  moreover have "fst ` set (map (\<lambda>(k', xs). if k' = k then (k', xs @ [x]) else (k', xs)) obj)
                 = fst ` set obj"
    by (induction obj) (auto split: if_splits)
  ultimately show ?thesis using Some by (auto simp: pushTo_def)
qed

lemma map_fst_update:
  "map fst (map (\<lambda>(k', xs). if k' = k then (k', g xs) else (k', xs)) obj) = map fst obj"
  by (induction obj) auto

lemma pushTo_distinct: "distinct (map fst obj) \<Longrightarrow> distinct (map fst (pushTo k x obj))"
proof (cases "map_of obj k")
  case None
  assume "distinct (map fst obj)"
  moreover from None have "k \<notin> fst ` set obj" by (simp add: map_of_eq_None_iff)
  ultimately show ?thesis using None by (simp add: pushTo_def)
next
  case (Some xs)
  assume "distinct (map fst obj)"
  moreover have "map fst (pushTo k x obj) = map fst obj"
    unfolding pushTo_def Some option.case by (rule map_fst_update)
  ultimately show ?thesis by (simp only:)
qed

lemma map_of_update:
  "map_of (map (\<lambda>(k', xs). if k' = k then (k', g xs) else (k', xs)) obj) k'
   = (if k' = k then map_option g (map_of obj k) else map_of obj k')"
  by (induction obj) auto

lemma pushTo_lookup:
  "lookupList (pushTo k x obj) k'
   = (if k' = k then lookupList obj k @ [x] else lookupList obj k')"
proof (cases "map_of obj k")
  case None
  then show ?thesis by (auto simp: pushTo_def lookupList_def map_of_append split: option.splits)
next
  case (Some xs)
  then show ?thesis by (simp add: pushTo_def lookupList_def map_of_update)
qed

lemma groupSortOrders_invariant:
  assumes "groupSortOrders fs g = Inr g'" and "distinct (map fst g)"
  shows "distinct (map fst g')
       \<and> fst ` set g' = fst ` set g \<union> ParsedFile.sku ` set fs
       \<and> (\<forall>k. lookupList g' k
                = lookupList g k @ map sortOrder (filter (\<lambda>f. ParsedFile.sku f = k) fs))"
  using assms
proof (induction fs arbitrary: g)
  case Nil
  then show ?case by simp
next
  case (Cons f fs)
  from Cons.prems(1) have ni: "\<not> inheritedProperty (ParsedFile.sku f)"
    and rec: "groupSortOrders fs (pushTo (ParsedFile.sku f) (sortOrder f) g) = Inr g'"
    by (auto split: if_splits)
  from Cons.prems(2) have d: "distinct (map fst (pushTo (ParsedFile.sku f) (sortOrder f) g))"
    by (rule pushTo_distinct)
  from Cons.IH [OF rec d] show ?case
    by (auto simp: pushTo_keys pushTo_lookup)
qed

lemma bumpFrequency_keys: "fst ` set (bumpFrequency c cf) = insert c (fst ` set cf)"
  by (induction c cf rule: bumpFrequency.induct) auto

lemma bumpFrequency_sorted:
  "sorted_wrt (<) (map fst cf) \<Longrightarrow> sorted_wrt (<) (map fst (bumpFrequency c cf))"
proof (induction c cf rule: bumpFrequency.induct)
  case (1 cnt)
  then show ?case by simp
next
  case (2 cnt k frequency rest)
  show ?case
  proof (cases "cnt = k")
    case True
    with 2 show ?thesis by simp
  next
    case False
    note ne = this
    show ?thesis
    proof (cases "cnt < k")
      case True
      with 2 ne show ?thesis by auto
    next
      case False
      with ne have gt: "k < cnt" by simp
      from 2 ne False have s: "sorted_wrt (<) (map fst (bumpFrequency cnt rest))" by simp
      have "\<forall>x \<in> fst ` set (bumpFrequency cnt rest). k < x"
        using gt "2.prems" by (auto simp: bumpFrequency_keys)
      with s ne False show ?thesis by auto
    qed
  qed
qed

lemma bumpFrequency_positive:
  "\<forall>e \<in> set cf. 0 < snd e \<Longrightarrow> \<forall>e \<in> set (bumpFrequency c cf). 0 < snd e"
  by (induction c cf rule: bumpFrequency.induct) auto

lemma freqOf_absent: "c \<notin> fst ` set cf \<Longrightarrow> freqOf cf c = 0"
proof -
  assume "c \<notin> fst ` set cf"
  then have "map_of cf c = None" by (simp add: map_of_eq_None_iff)
  then show ?thesis by (simp add: freqOf_def)
qed

lemma freqOf_Nil: "freqOf [] c = 0"
  by (simp add: freqOf_def)

lemma freqOf_Cons: "freqOf ((k, v) # cf) c = (if c = k then v else freqOf cf c)"
  by (simp add: freqOf_def)

lemma bumpFrequency_freqOf:
  "sorted_wrt (<) (map fst cf) \<Longrightarrow>
   freqOf (bumpFrequency c cf) c' = freqOf cf c' + (if c' = c then 1 else 0)"
proof (induction c cf rule: bumpFrequency.induct)
  case (1 cnt)
  then show ?case by (simp add: freqOf_Cons freqOf_Nil)
next
  case (2 cnt k frequency rest)
  show ?case
  proof (cases "cnt = k")
    case True
    then show ?thesis by (simp add: freqOf_Cons)
  next
    case False
    note ne = this
    show ?thesis
    proof (cases "cnt < k")
      case True
      have "cnt \<notin> fst ` set rest" using True "2.prems" by auto
      then have "freqOf rest cnt = 0" by (rule freqOf_absent)
      with True ne show ?thesis by (simp add: freqOf_Cons)
    next
      case False
      from "2.prems" have "sorted_wrt (<) (map fst rest)" by simp
      with 2 ne False have ih: "freqOf (bumpFrequency cnt rest) c'
          = freqOf rest c' + (if c' = cnt then 1 else 0)" by simp
      from ne False have "bumpFrequency cnt ((k, frequency) # rest)
          = (k, frequency) # bumpFrequency cnt rest" by simp
      then show ?thesis using ih ne by (simp add: freqOf_Cons)
    qed
  qed
qed

lemma bumpFrequency_wellFormed:
  "wellFormedFrequency cf \<Longrightarrow> wellFormedFrequency (bumpFrequency c cf)"
  using bumpFrequency_sorted bumpFrequency_positive
  unfolding wellFormedFrequency_def by blast

lemma countLoop_invariant:
  "wellFormedFrequency cf \<Longrightarrow>
   wellFormedFrequency (countLoop es cf)
   \<and> (\<forall>c. freqOf (countLoop es cf) c
            = freqOf cf c + length (filter (\<lambda>e. length (snd e) = c) es))"
proof (induction es arbitrary: cf)
  case Nil
  then show ?case by simp
next
  case (Cons e es)
  obtain key orders where e: "e = (key, orders)" by (cases e)
  from Cons.prems have wf: "wellFormedFrequency (bumpFrequency (length orders) cf)"
    by (rule bumpFrequency_wellFormed)
  from Cons.prems have s: "sorted_wrt (<) (map fst cf)" by (simp add: wellFormedFrequency_def)
  from Cons.IH [OF wf] e show ?case
    by (auto simp: bumpFrequency_freqOf [OF s])
qed

lemma modeLoop_invariant:
  "modeLoop cf m0 f0 = (m, f) \<Longrightarrow> sorted_wrt (<) (map fst cf) \<Longrightarrow>
   f0 \<le> f \<and> (\<forall>e \<in> set cf. snd e \<le> f)
   \<and> ((f = f0 \<and> m = m0)
       \<or> ((m, f) \<in> set cf \<and> f0 < f \<and> (\<forall>e \<in> set cf. snd e = f \<longrightarrow> m \<le> fst e)))"
proof (induction cf m0 f0 rule: modeLoop.induct)
  case (1 mostCommon maxFrequency)
  then show ?case by simp
next
  case (2 cnt frequency rest mostCommon maxFrequency)
  from "2.prems"(2) have sr: "sorted_wrt (<) (map fst rest)"
    and lt: "\<forall>e \<in> set rest. cnt < fst e" by auto
  show ?case
  proof (cases "frequency > maxFrequency")
    case True
    with "2.prems"(1) have r: "modeLoop rest cnt frequency = (m, f)" by simp
    from "2.IH"(1) [OF True r sr]
    have a: "frequency \<le> f" and b: "\<forall>e \<in> set rest. snd e \<le> f"
      and c: "(f = frequency \<and> m = cnt)
              \<or> ((m, f) \<in> set rest \<and> frequency < f \<and> (\<forall>e \<in> set rest. snd e = f \<longrightarrow> m \<le> fst e))"
      by blast+
    from c show ?thesis
    proof
      assume "f = frequency \<and> m = cnt"
      with True a b lt show ?thesis by (auto intro: less_imp_le)
    next
      assume "(m, f) \<in> set rest \<and> frequency < f \<and> (\<forall>e \<in> set rest. snd e = f \<longrightarrow> m \<le> fst e)"
      with True a b show ?thesis by auto
    qed
  next
    case False
    with "2.prems"(1) have r: "modeLoop rest mostCommon maxFrequency = (m, f)" by simp
    from "2.IH"(2) [OF False r sr]
    have a: "maxFrequency \<le> f" and b: "\<forall>e \<in> set rest. snd e \<le> f"
      and c: "(f = maxFrequency \<and> m = mostCommon)
              \<or> ((m, f) \<in> set rest \<and> maxFrequency < f \<and> (\<forall>e \<in> set rest. snd e = f \<longrightarrow> m \<le> fst e))"
      by blast+
    from c show ?thesis
    proof
      assume "f = maxFrequency \<and> m = mostCommon"
      with False a b show ?thesis by auto
    next
      assume "(m, f) \<in> set rest \<and> maxFrequency < f \<and> (\<forall>e \<in> set rest. snd e = f \<longrightarrow> m \<le> fst e)"
      with False a b show ?thesis by auto
    qed
  qed
qed

lemma mset_objectEntries: "mset (objectEntries obj) = mset obj"
proof -
  have "mset (objectEntries obj)
        = filter_mset (\<lambda>(k, v). isArrayIndex k) (mset obj)
          + filter_mset (\<lambda>(k, v). \<not> isArrayIndex k) (mset obj)"
    by (simp add: objectEntries_def)
  also have "\<dots> = mset obj"
    using multiset_partition [of "mset obj" "\<lambda>(k, v). isArrayIndex k"]
    by (simp add: case_prod_unfold)
  finally show ?thesis .
qed

lemma entries_facts:
  assumes "groupSortOrders (filter isValid files) [] = Inr g"
  shows "distinct (map fst (objectEntries g))
       \<and> set (map fst (objectEntries g)) = set (validSkus files)
       \<and> (\<forall>e \<in> set (objectEntries g). snd e = skuOrders files (fst e))"
proof -
  from groupSortOrders_invariant [OF assms]
  have d: "distinct (map fst g)"
    and k: "fst ` set g = ParsedFile.sku ` set (filter isValid files)"
    and l: "\<forall>k. lookupList g k
              = map sortOrder (filter (\<lambda>f. ParsedFile.sku f = k) (filter isValid files))"
    by (simp_all add: lookupList_def)
  have m: "mset (map fst (objectEntries g)) = mset (map fst g)"
    by (simp add: mset_objectEntries)
  from m d have d': "distinct (map fst (objectEntries g))"
    by (metis mset_eq_imp_distinct_iff)
  from m have "set (map fst (objectEntries g)) = set (map fst g)" by (rule mset_eq_setD)
  with k have k': "set (map fst (objectEntries g)) = set (validSkus files)"
    by (simp add: validSkus_def)
  have "\<forall>e \<in> set (objectEntries g). snd e = skuOrders files (fst e)"
  proof
    fix e assume "e \<in> set (objectEntries g)"
    then have "e \<in> set g" using mset_objectEntries [of g] by (metis mset_eq_setD)
    then have "(fst e, snd e) \<in> set g" by simp
    with d have "map_of g (fst e) = Some (snd e)" by (simp only: map_of_eq_Some_iff)
    then have "lookupList g (fst e) = snd e" by (simp add: lookupList_def)
    with l show "snd e = skuOrders files (fst e)"
      by (simp add: skuOrders_def conj_commute)
  qed
  with d' k' show ?thesis by blast
qed

lemma length_filter_distinct_eq:
  assumes "distinct xs" and "distinct ys" and "set xs = set ys"
  shows "length (filter P xs) = length (filter P ys)"
proof -
  from assms have "mset xs = mset ys" by (simp add: set_eq_iff_mset_eq_distinct)
  then have "mset (filter P xs) = mset (filter P ys)" by simp
  then show ?thesis by (rule mset_eq_length)
qed

lemma entries_count:
  assumes "groupSortOrders (filter isValid files) [] = Inr g"
  shows "length (filter (\<lambda>e. length (snd e) = c) (objectEntries g)) = countFrequencyOf files c"
proof -
  let ?es = "objectEntries g"
  from entries_facts [OF assms]
  have d: "distinct (map fst ?es)" and k: "set (map fst ?es) = set (validSkus files)"
    and o: "\<forall>e \<in> set ?es. snd e = skuOrders files (fst e)" by blast+
  have "filter (\<lambda>e. length (snd e) = c) ?es = filter (\<lambda>e. skuCount files (fst e) = c) ?es"
    using o by (intro filter_cong) (auto simp: skuCount_def)
  then have "length (filter (\<lambda>e. length (snd e) = c) ?es)
             = length (filter (\<lambda>k. skuCount files k = c) (map fst ?es))"
    by (simp add: filter_map comp_def)
  also have "\<dots> = length (filter (\<lambda>k. skuCount files k = c) (validSkus files))"
    using d k by (intro length_filter_distinct_eq) (simp_all add: validSkus_def)
  finally show ?thesis by (simp add: countFrequencyOf_def)
qed

lemma analyze_unfold:
  assumes "analyzeImagePattern localeCompare files = Inr (Some a)"
  shows "\<exists>g. groupSortOrders (filter isValid files) [] = Inr g
           \<and> 2 \<le> length (objectEntries g)
           \<and> mostCommonCount a = fst (modeLoop (countLoop (objectEntries g) []) 0 0)
           \<and> skusWithExpectedCount a = snd (modeLoop (countLoop (objectEntries g) []) 0 0)
           \<and> totalSkus a = length (objectEntries g)
           \<and> isConsistentPattern a = (length (objectEntries g) \<le> 2 * skusWithExpectedCount a)
           \<and> warnings a
               = sortBy (\<lambda>v w. localeCompare (MissingImageWarning.sku v)
                                  (MissingImageWarning.sku w) \<le> 0)
                   (warningLoop (isConsistentPattern a) (mostCommonCount a) (objectEntries g) [])"
  using assms
  by (auto simp: analyzeImagePattern_def Let_def split_beta split: if_splits sum.splits)

lemma wellFormed_lookup:
  "wellFormedFrequency cf \<Longrightarrow> e \<in> set cf \<Longrightarrow> freqOf cf (fst e) = snd e"
proof -
  assume wf: "wellFormedFrequency cf" and e: "e \<in> set cf"
  from wf have "distinct (map fst cf)"
    by (simp add: wellFormedFrequency_def strict_sorted_iff)
  moreover from e have "(fst e, snd e) \<in> set cf" by simp
  ultimately have "map_of cf (fst e) = Some (snd e)" by (simp only: map_of_eq_Some_iff)
  then show ?thesis by (simp add: freqOf_def)
qed

lemma wellFormed_positive_key:
  "wellFormedFrequency cf \<Longrightarrow> 0 < freqOf cf c \<Longrightarrow> \<exists>e \<in> set cf. fst e = c \<and> snd e = freqOf cf c"
proof -
  assume wf: "wellFormedFrequency cf" and p: "0 < freqOf cf c"
  then obtain n where n: "map_of cf c = Some n" by (auto simp: freqOf_def split: option.splits)
  then have "(c, n) \<in> set cf" by (rule map_of_SomeD)
  moreover from n have "freqOf cf c = n" by (simp add: freqOf_def)
  ultimately show ?thesis by force
qed

lemma mode_of_frequency:
  assumes wf: "wellFormedFrequency cf" and ne: "cf \<noteq> []"
    and r: "modeLoop cf 0 0 = (m, f)"
  shows "freqOf cf m = f \<and> 0 < f \<and> (\<forall>c. freqOf cf c \<le> f)
       \<and> (\<forall>c. freqOf cf c = f \<longrightarrow> m \<le> c)"
proof -
  from wf have s: "sorted_wrt (<) (map fst cf)" and pos: "\<forall>e \<in> set cf. 0 < snd e"
    by (simp_all add: wellFormedFrequency_def)
  from modeLoop_invariant [OF r s]
  have le: "\<forall>e \<in> set cf. snd e \<le> f"
    and alt: "(f = 0 \<and> m = 0)
       \<or> ((m, f) \<in> set cf \<and> 0 < f \<and> (\<forall>e \<in> set cf. snd e = f \<longrightarrow> m \<le> fst e))"
    by blast+
  from ne obtain e0 where e0: "e0 \<in> set cf" by (cases cf) auto
  with pos le have fpos: "0 < f" by (metis less_le_trans)
  with alt have mem: "(m, f) \<in> set cf"
    and least: "\<forall>e \<in> set cf. snd e = f \<longrightarrow> m \<le> fst e" by auto
  from wellFormed_lookup [OF wf mem] have fm: "freqOf cf m = f" by simp
  have bound: "\<forall>c. freqOf cf c \<le> f"
  proof
    fix c
    show "freqOf cf c \<le> f"
    proof (cases "0 < freqOf cf c")
      case True
      from wellFormed_positive_key [OF wf True] le show ?thesis by auto
    next
      case False
      then show ?thesis by simp
    qed
  qed
  have tie: "\<forall>c. freqOf cf c = f \<longrightarrow> m \<le> c"
  proof (intro allI impI)
    fix c assume c: "freqOf cf c = f"
    with fpos have "0 < freqOf cf c" by simp
    from wellFormed_positive_key [OF wf this] c least show "m \<le> c" by auto
  qed
  from fm fpos bound tie show ?thesis by blast
qed

text \<open>
  Claim C10. The most common count that \<open>analyzeImagePattern\<close> returns is determined
  by the files alone: it is an image count of maximal frequency among the SKUs, its
  frequency is the returned \<open>skusWithExpectedCount\<close>, and every count that has the same
  frequency is at least as large, so on a tie the smallest count is chosen.
\<close>

theorem analyzeImagePattern_mostCommonCount:
  assumes "analyzeImagePattern localeCompare files = Inr (Some a)"
  shows "countFrequencyOf files (mostCommonCount a) = skusWithExpectedCount a
       \<and> 0 < skusWithExpectedCount a
       \<and> (\<forall>c. countFrequencyOf files c \<le> countFrequencyOf files (mostCommonCount a))
       \<and> (\<forall>c. countFrequencyOf files c = countFrequencyOf files (mostCommonCount a)
              \<longrightarrow> mostCommonCount a \<le> c)"
proof -
  from analyze_unfold [OF assms] obtain g
    where g: "groupSortOrders (filter isValid files) [] = Inr g"
      and len: "2 \<le> length (objectEntries g)"
      and m: "mostCommonCount a = fst (modeLoop (countLoop (objectEntries g) []) 0 0)"
      and f: "skusWithExpectedCount a = snd (modeLoop (countLoop (objectEntries g) []) 0 0)"
    by blast
  let ?cf = "countLoop (objectEntries g) []"
  have wf0: "wellFormedFrequency []" by (simp add: wellFormedFrequency_def)
  from countLoop_invariant [OF wf0, of "objectEntries g"]
  have wf: "wellFormedFrequency ?cf"
    and fr: "\<forall>c. freqOf ?cf c = length (filter (\<lambda>e. length (snd e) = c) (objectEntries g))"
    by (simp_all add: freqOf_Nil)
  from fr have eq: "\<forall>c. freqOf ?cf c = countFrequencyOf files c"
    by (simp add: entries_count [OF g])
  from len obtain e where e: "e \<in> set (objectEntries g)" by (cases "objectEntries g") auto
  then have "filter (\<lambda>x. length (snd x) = length (snd e)) (objectEntries g) \<noteq> []"
    by (auto simp: filter_empty_conv)
  then have "0 < freqOf ?cf (length (snd e))" using fr by simp
  then have ne: "?cf \<noteq> []" by (auto simp: freqOf_Nil)
  from m f have r: "modeLoop ?cf 0 0 = (mostCommonCount a, skusWithExpectedCount a)" by simp
  from mode_of_frequency [OF wf ne r] eq show ?thesis by simp
qed

theorem analyzeImagePattern_mostCommonCount_witness:
  "analyzeImagePattern compareCodeUnits tiedFiles
     = Inr (Some \<lparr>mostCommonCount = 1, totalSkus = 2, skusWithExpectedCount = 1,
                   warnings = [], isConsistentPattern = True\<rparr>)
   \<and> countFrequencyOf tiedFiles 2 = countFrequencyOf tiedFiles 1
   \<and> countFrequencyOf tiedFiles 1 = 1"
proof -
  have run: "analyzeImagePattern compareCodeUnits tiedFiles
     = Inr (Some \<lparr>mostCommonCount = 1, totalSkus = 2, skusWithExpectedCount = 1,
                   warnings = [], isConsistentPattern = True\<rparr>)"
    by code_simp
  have tie: "countFrequencyOf tiedFiles 2 = countFrequencyOf tiedFiles 1" by code_simp
  from analyzeImagePattern_mostCommonCount [OF run] tie run show ?thesis by simp
qed

lemma gapLoop_eq:
  "gapLoop i m os acc = acc @ filter (\<lambda>j. j \<notin> set os) [i..m]"
proof (induction i m os acc rule: gapLoop.induct)
  case (1 i maxSort sortOrders missing)
  show ?case
  proof (cases "i \<le> maxSort")
    case True
    then have u: "[i..maxSort] = i # [i + 1..maxSort]" by (simp add: upto_rec1)
    from True have "gapLoop i maxSort sortOrders missing
        = gapLoop (i + 1) maxSort sortOrders
            (if i \<in> set sortOrders then missing else missing @ [i])"
      by (simp only: gapLoop.simps [of i] if_True)
    also have "\<dots> = (if i \<in> set sortOrders then missing else missing @ [i])
                      @ filter (\<lambda>j. j \<notin> set sortOrders) [i + 1..maxSort]"
      using True by (rule "1.IH")
    also have "\<dots> = missing @ filter (\<lambda>j. j \<notin> set sortOrders) [i..maxSort]"
      by (simp add: u)
    finally show ?thesis .
  next
    case False
    then have "[i..maxSort] = []" by simp
    moreover from False have "gapLoop i maxSort sortOrders missing = missing"
      by (simp only: gapLoop.simps [of i] if_False)
    ultimately show ?thesis by simp
  qed
qed

lemma tailLoop_eq: "tailLoop i b acc = acc @ [i..b]"
proof (induction i b acc rule: tailLoop.induct)
  case (1 i bound missing)
  show ?case
  proof (cases "i \<le> bound")
    case True
    then have u: "[i..bound] = i # [i + 1..bound]" by (simp add: upto_rec1)
    from True have "tailLoop i bound missing = tailLoop (i + 1) bound (missing @ [i])"
      by (simp only: tailLoop.simps [of i] if_True)
    also have "\<dots> = (missing @ [i]) @ [i + 1..bound]" using True by (rule "1.IH")
    finally show ?thesis by (simp add: u)
  next
    case False
    then have "[i..bound] = []" by simp
    moreover from False have "tailLoop i bound missing = missing"
      by (simp only: tailLoop.simps [of i] if_False)
    ultimately show ?thesis by simp
  qed
qed

lemma warningLoop_eq:
  "warningLoop consistent m es acc = acc @ List.map_filter (skuWarning consistent m) es"
  by (induction es arbitrary: acc) (auto simp: List.map_filter_simps split: option.splits)

lemma sort_cons_facts:
  assumes "sort os = x # xs"
  shows "fold min xs x = Min (set os) \<and> fold max xs x = Max (set os)
       \<and> length (x # xs) = length os \<and> set (x # xs) = set os"
proof -
  have set_eq: "set (x # xs) = set os" using assms by (metis set_sort)
  have mn: "fold min xs x = Min (set (x # xs))" by (simp only: Min.set_eq_fold)
  have mx: "fold max xs x = Max (set (x # xs))" by (simp only: Max.set_eq_fold)
  have len: "length (x # xs) = length os" using assms by (metis length_sort)
  from set_eq mn mx len show ?thesis by simp
qed

lemma skuWarning_unfold:
  assumes s: "sort os = x # xs"
  shows "skuWarning consistent m (k, os) =
     (if 0 < length (gapLoop (fold min xs x) (fold max xs x) (x # xs) [])
         \<or> (consistent \<and> length (x # xs) < m)
      then Some \<lparr>MissingImageWarning.sku = k, expectedCount = m,
                 actualCount = length (x # xs),
                 missingNumbers =
                   (if (consistent \<and> length (x # xs) < m)
                       \<and> \<not> 0 < length (gapLoop (fold min xs x) (fold max xs x) (x # xs) [])
                    then tailLoop (fold max xs x + 1)
                           (fold max xs x + (int m - int (length (x # xs))))
                           (gapLoop (fold min xs x) (fold max xs x) (x # xs) [])
                    else gapLoop (fold min xs x) (fold max xs x) (x # xs) []),
                 hasGaps = (0 < length (gapLoop (fold min xs x) (fold max xs x) (x # xs) []))\<rparr>
      else None)"
  unfolding skuWarning_def snd_conv fst_conv s Let_def list.case ..

lemma skuWarning_eq:
  assumes "os \<noteq> []"
  shows "skuWarning consistent m (k, os) =
     (if gapNumbers os \<noteq> [] \<or> (consistent \<and> length os < m)
      then Some \<lparr>MissingImageWarning.sku = k, expectedCount = m, actualCount = length os,
                 missingNumbers =
                   (if gapNumbers os \<noteq> [] then gapNumbers os
                    else trailingNumbers os (m - length os)),
                 hasGaps = (gapNumbers os \<noteq> [])\<rparr>
      else None)"
proof -
  from assms have "sort os \<noteq> []" by (metis length_0_conv length_sort)
  then obtain x xs where s: "sort os = x # xs" by (cases "sort os") auto
  from sort_cons_facts [OF s]
  have mn: "fold min xs x = Min (set os)" and mx: "fold max xs x = Max (set os)"
    and len: "length (x # xs) = length os" and set_eq: "set (x # xs) = set os"
    by blast+
  have gaps: "gapLoop (Min (set os)) (Max (set os)) (x # xs) [] = gapNumbers os"
    unfolding gapLoop_eq gapNumbers_def set_eq using assms by simp
  have tail: "tailLoop (Max (set os) + 1) (Max (set os) + (int m - int (length os))) []
              = trailingNumbers os (m - length os)" if "length os < m"
  proof -
    from that have "int m - int (length os) = int (m - length os)" by simp
    then show ?thesis unfolding tailLoop_eq trailingNumbers_def by (simp only: append_Nil)
  qed
  show ?thesis
  proof (cases "gapNumbers os = []")
    case True
    show ?thesis
    proof (cases "consistent \<and> length os < m")
      case True
      note fewer = this
      with tail have t: "tailLoop (Max (set os) + 1) (Max (set os) + (int m - int (length os))) []
              = trailingNumbers os (m - length os)" by blast
      show ?thesis
        unfolding skuWarning_unfold [OF s] mn mx len gaps
        using \<open>gapNumbers os = []\<close> fewer t by simp
    next
      case False
      then have nf: "(consistent \<and> length os < m) = False" by blast
      show ?thesis
        unfolding skuWarning_unfold [OF s] mn mx len gaps \<open>gapNumbers os = []\<close> nf
        by simp
    qed
  next
    case False
    then have g: "0 < length (gapNumbers os)" by simp
    show ?thesis
      unfolding skuWarning_unfold [OF s] mn mx len gaps
      by (simp only: g False simp_thms if_True if_False)
  qed
qed

lemma mset_insertBy: "mset (insertBy le x ys) = add_mset x (mset ys)"
  by (induction ys) auto

lemma mset_sortBy: "mset (sortBy le xs) = mset xs"
  by (induction xs) (simp_all add: sortBy_def mset_insertBy)

lemma set_insertBy: "set (insertBy le x ys) = insert x (set ys)"
  by (induction ys) auto

lemma sorted_insertBy:
  assumes total: "\<And>a b. le a b \<or> le b a"
    and trans: "\<And>a b c. le a b \<Longrightarrow> le b c \<Longrightarrow> le a c"
  shows "sorted_wrt le ys \<Longrightarrow> sorted_wrt le (insertBy le x ys)"
proof (induction ys)
  case Nil
  then show ?case by simp
next
  case (Cons y ys)
  show ?case
  proof (cases "le x y")
    case True
    from Cons.prems have "\<forall>z \<in> set ys. le y z" by simp
    with True trans have "\<forall>z \<in> set ys. le x z" by blast
    with True Cons.prems show ?thesis by simp
  next
    case False
    with total have yx: "le y x" by blast
    from Cons.prems have "\<forall>z \<in> set ys. le y z" and "sorted_wrt le ys" by simp_all
    with yx Cons.IH False show ?thesis by (simp add: set_insertBy)
  qed
qed

lemma sorted_sortBy:
  assumes total: "\<And>a b. le a b \<or> le b a"
    and trans: "\<And>a b c. le a b \<Longrightarrow> le b c \<Longrightarrow> le a c"
  shows "sorted_wrt le (sortBy le xs)"
proof (induction xs)
  case Nil
  then show ?case by (simp add: sortBy_def)
next
  case (Cons x xs)
  have "sortBy le (x # xs) = insertBy le x (sortBy le xs)" by (simp add: sortBy_def)
  with Cons sorted_insertBy [of le, OF total trans] show ?case by simp
qed

lemma map_filter_characterised:
  "\<forall>e \<in> set es. f e = (if P (g e) then Some (h (g e)) else None) \<Longrightarrow>
   List.map_filter f es = map h (filter P (map g es))"
  by (induction es) (simp_all add: List.map_filter_simps)

lemma skuOrders_nonempty: "k \<in> set (validSkus files) \<Longrightarrow> skuOrders files k \<noteq> []"
  by (auto simp: validSkus_def skuOrders_def filter_empty_conv)

lemma strict_sorted_upto: "sorted_wrt (<) [i..j]"
  by (simp add: strict_sorted_iff)

lemma expectedWarning_ascending: "sorted_wrt (<) (missingNumbers (expectedWarning m files k))"
  by (simp add: expectedWarning_def gapNumbers_def trailingNumbers_def
      strict_sorted_upto sorted_wrt_filter)

lemma warnings_found:
  assumes g: "groupSortOrders (filter isValid files) [] = Inr g"
  shows "warningLoop consistent m (objectEntries g) []
         = map (expectedWarning m files)
             (filter (warrantsWarning consistent m files) (map fst (objectEntries g)))"
proof -
  let ?es = "objectEntries g"
  from entries_facts [OF g]
  have k: "set (map fst ?es) = set (validSkus files)"
    and o: "\<forall>e \<in> set ?es. snd e = skuOrders files (fst e)" by blast+
  have "\<forall>e \<in> set ?es. skuWarning consistent m e
          = (if warrantsWarning consistent m files (fst e)
             then Some (expectedWarning m files (fst e)) else None)"
  proof
    fix e assume e: "e \<in> set ?es"
    with k have "fst e \<in> set (validSkus files)" by auto
    then have ne: "skuOrders files (fst e) \<noteq> []" by (rule skuOrders_nonempty)
    from e o have "e = (fst e, skuOrders files (fst e))" by (metis prod.collapse)
    then have "skuWarning consistent m e
               = skuWarning consistent m (fst e, skuOrders files (fst e))" by simp
    also note skuWarning_eq [OF ne, of consistent m "fst e"]
    finally show "skuWarning consistent m e
          = (if warrantsWarning consistent m files (fst e)
             then Some (expectedWarning m files (fst e)) else None)"
      by (simp add: warrantsWarning_def expectedWarning_def skuCount_def)
  qed
  then have "List.map_filter (skuWarning consistent m) ?es
             = map (expectedWarning m files)
                 (filter (warrantsWarning consistent m files) (map fst ?es))"
    by (rule map_filter_characterised)
  then show ?thesis by (simp add: warningLoop_eq)
qed

lemma compareCodeUnits_total: "compareCodeUnits a b \<le> 0 \<or> compareCodeUnits b a \<le> 0"
  by (induction a b rule: compareCodeUnits.induct) auto

lemma compareCodeUnits_trans:
  "compareCodeUnits a b \<le> 0 \<Longrightarrow> compareCodeUnits b c \<le> 0 \<Longrightarrow> compareCodeUnits a c \<le> 0"
proof (induction a arbitrary: b c)
  case Nil
  then show ?case by (cases c) auto
next
  case (Cons x xs)
  then obtain y ys where b: "b = y # ys" by (cases b) auto
  with Cons.prems obtain z zs where c: "c = z # zs" by (cases c) auto
  from Cons.prems b c have xy: "(of_char x :: nat) \<le> of_char y"
    and yz: "(of_char y :: nat) \<le> of_char z"
    by (auto split: if_splits)
  show ?case
  proof (cases "(of_char x :: nat) < of_char z")
    case True
    with c show ?thesis by simp
  next
    case False
    with xy yz have e1: "(of_char x :: nat) = of_char y" and e2: "(of_char y :: nat) = of_char z"
      by linarith+
    with Cons.prems b c have "compareCodeUnits xs ys \<le> 0" and "compareCodeUnits ys zs \<le> 0"
      by auto
    then have "compareCodeUnits xs zs \<le> 0" by (rule Cons.IH)
    with e1 e2 c show ?thesis by simp
  qed
qed

text \<open>
  Claim C5, as stated, fails when the pattern is not consistent: in the sample the SKU
  \<open>A\<close> has 1 image, the most common count is 2, and \<open>A\<close> gets no warning.
\<close>

theorem analyzeImagePattern_inconsistent_counterexample:
  "analyzeImagePattern compareCodeUnits inconsistentFiles
     = Inr (Some \<lparr>mostCommonCount = 2, totalSkus = 5, skusWithExpectedCount = 2,
                   warnings = [], isConsistentPattern = False\<rparr>)
   \<and> ''A'' \<in> set (validSkus inconsistentFiles)
   \<and> skuCount inconsistentFiles ''A'' = 1
   \<and> warrantsWarningAsClaimed 2 inconsistentFiles ''A''"
  by code_simp

text \<open>
  Claim C5, amended. Whenever \<open>analyzeImagePattern\<close> returns an analysis, its warnings
  are exactly the warnings \<open>{sku, expectedCount = mostCommonCount, actualCount,
  missingNumbers, hasGaps}\<close> of the SKUs that have gaps in their sort orders, or whose
  image count is below \<open>mostCommonCount\<close> while the pattern is consistent; there is one
  warning per such SKU, its missing numbers are ascending, and the warnings are sorted
  by SKU in the order of the collation, provided the collation compares any two strings
  and is transitive.
\<close>

theorem analyzeImagePattern_warnings:
  assumes a: "analyzeImagePattern localeCompare files = Inr (Some a)"
  shows "set (warnings a)
         = expectedWarning (mostCommonCount a) files `
             {k \<in> set (validSkus files).
                warrantsWarning (isConsistentPattern a) (mostCommonCount a) files k}
       \<and> distinct (map MissingImageWarning.sku (warnings a))
       \<and> (\<forall>w \<in> set (warnings a). sorted_wrt (<) (missingNumbers w))
       \<and> ((\<forall>x y. localeCompare x y \<le> 0 \<or> localeCompare y x \<le> 0)
            \<and> (\<forall>x y z. localeCompare x y \<le> 0 \<and> localeCompare y z \<le> 0
                   \<longrightarrow> localeCompare x z \<le> 0)
          \<longrightarrow> sorted_wrt (\<lambda>v w. localeCompare (MissingImageWarning.sku v)
                                 (MissingImageWarning.sku w) \<le> 0) (warnings a))"
proof -
  let ?le = "\<lambda>v w. localeCompare (MissingImageWarning.sku v) (MissingImageWarning.sku w) \<le> 0"
  let ?c = "isConsistentPattern a" and ?m = "mostCommonCount a"
  from analyze_unfold [OF a] obtain g
    where g: "groupSortOrders (filter isValid files) [] = Inr g"
      and w: "warnings a = sortBy ?le (warningLoop ?c ?m (objectEntries g) [])"
    by blast
  let ?ks = "filter (warrantsWarning ?c ?m files) (map fst (objectEntries g))"
  from w warnings_found [OF g, of ?c ?m]
  have w': "warnings a = sortBy ?le (map (expectedWarning ?m files) ?ks)" by simp
  from entries_facts [OF g]
  have d: "distinct (map fst (objectEntries g))"
    and k: "set (map fst (objectEntries g)) = set (validSkus files)" by blast+
  have m: "mset (warnings a) = mset (map (expectedWarning ?m files) ?ks)"
    unfolding w' by (rule mset_sortBy)
  then have s: "set (warnings a) = set (map (expectedWarning ?m files) ?ks)"
    by (rule mset_eq_setD)
  have "set ?ks = {k \<in> set (validSkus files). warrantsWarning ?c ?m files k}"
    using k by auto
  with s have first: "set (warnings a)
         = expectedWarning ?m files ` {k \<in> set (validSkus files). warrantsWarning ?c ?m files k}"
    by simp
  have sk: "map MissingImageWarning.sku (map (expectedWarning ?m files) ?ks) = ?ks"
    by (simp add: expectedWarning_def comp_def)
  from m have "mset (map MissingImageWarning.sku (warnings a))
               = mset (map MissingImageWarning.sku (map (expectedWarning ?m files) ?ks))"
    by (metis mset_map)
  with sk have "mset (map MissingImageWarning.sku (warnings a)) = mset ?ks" by simp
  moreover from d have "distinct ?ks" by (rule distinct_filter)
  ultimately have second: "distinct (map MissingImageWarning.sku (warnings a))"
    by (metis mset_eq_imp_distinct_iff)
  have third: "\<forall>w \<in> set (warnings a). sorted_wrt (<) (missingNumbers w)"
    unfolding first by (auto simp: expectedWarning_ascending)
  have fourth: "sorted_wrt ?le (warnings a)"
    if total: "\<forall>x y. localeCompare x y \<le> 0 \<or> localeCompare y x \<le> 0"
      and trans: "\<forall>x y z. localeCompare x y \<le> 0 \<and> localeCompare y z \<le> 0
                    \<longrightarrow> localeCompare x z \<le> 0"
  proof -
    have t: "\<And>v w. ?le v w \<or> ?le w v" using total by blast
    have tr: "\<And>u v w. ?le u v \<Longrightarrow> ?le v w \<Longrightarrow> ?le u w" using trans by blast
    show ?thesis unfolding w' using t tr by (rule sorted_sortBy)
  qed
  from first second third fourth show ?thesis by blast
qed

theorem analyzeImagePattern_warnings_witness:
  "analyzeImagePattern compareCodeUnits consistentFiles
     = Inr (Some \<lparr>mostCommonCount = 3, totalSkus = 4, skusWithExpectedCount = 3,
                   warnings = [expectedWarning 3 consistentFiles ''B'',
                               expectedWarning 3 consistentFiles ''C''],
                   isConsistentPattern = True\<rparr>)
   \<and> {expectedWarning 3 consistentFiles ''B'', expectedWarning 3 consistentFiles ''C''}
       = expectedWarning 3 consistentFiles `
           {k \<in> set (validSkus consistentFiles). warrantsWarning True 3 consistentFiles k}
   \<and> sorted_wrt (\<lambda>v w. compareCodeUnits (MissingImageWarning.sku v)
                          (MissingImageWarning.sku w) \<le> 0)
         [expectedWarning 3 consistentFiles ''B'', expectedWarning 3 consistentFiles ''C'']"
proof -
  have run: "analyzeImagePattern compareCodeUnits consistentFiles
     = Inr (Some \<lparr>mostCommonCount = 3, totalSkus = 4, skusWithExpectedCount = 3,
                   warnings = [expectedWarning 3 consistentFiles ''B'',
                               expectedWarning 3 consistentFiles ''C''],
                   isConsistentPattern = True\<rparr>)"
    by code_simp
  have total: "\<forall>x y. compareCodeUnits x y \<le> 0 \<or> compareCodeUnits y x \<le> 0"
    using compareCodeUnits_total by blast
  have trans: "\<forall>x y z. compareCodeUnits x y \<le> 0 \<and> compareCodeUnits y z \<le> 0
                  \<longrightarrow> compareCodeUnits x z \<le> 0"
    using compareCodeUnits_trans by blast
  note facts = analyzeImagePattern_warnings [OF run]
  note members = facts [THEN conjunct1]
  note ordered = mp [OF facts [THEN conjunct2, THEN conjunct2, THEN conjunct2]
                        conjI [OF total trans]]
  from members ordered run show ?thesis by simp
qed

end

